theory Spec2Isabelle
  imports Complex_Main
begin

section \<open>Data model\<close>

text \<open>
  A JavaScript number is modelled as a real or \<open>NaN\<close>. \<open>NaN\<close> is what the unary plus
  of the source gives for a missing array element (\<open>+undefined\<close>) and for a command
  letter (\<open>+'Z'\<close>); both occur in \<open>transformPath\<close>.
\<close>

datatype jsnum = Num real | NaN

text \<open>Strict equality \<open>===\<close> on numbers: \<open>NaN\<close> equals nothing, itself included.\<close>

fun strict_eq :: "jsnum \<Rightarrow> jsnum \<Rightarrow> bool" where
  "strict_eq (Num a) (Num b) = (a = b)"
| "strict_eq _ _ = False"

text \<open>The operator \<open>a || b\<close> on numbers: \<open>0\<close> and \<open>NaN\<close> are falsy.\<close>

fun falsy :: "jsnum \<Rightarrow> bool" where
  "falsy (Num a) = (a = 0)"
| "falsy NaN = True"

definition js_or :: "jsnum \<Rightarrow> jsnum \<Rightarrow> jsnum" where
  "js_or a b = (if falsy a then b else a)"

fun nadd :: "jsnum \<Rightarrow> jsnum \<Rightarrow> jsnum" where
  "nadd (Num a) (Num b) = Num (a + b)"
| "nadd _ _ = NaN"

fun nsub :: "jsnum \<Rightarrow> jsnum \<Rightarrow> jsnum" where
  "nsub (Num a) (Num b) = Num (a - b)"
| "nsub _ _ = NaN"

fun nscale :: "real \<Rightarrow> jsnum \<Rightarrow> jsnum" where
  "nscale k (Num a) = Num (k * a)"
| "nscale k NaN = NaN"

text \<open>
  The type \<open>PathCommand\<close> of the source is the union of the twenty command letters:
  ten letters, each absolute (upper case) or relative (lower case).
\<close>

datatype letter = CM | CL | CH | CV | CC | CS | CQ | CT | CA | CZ

datatype command = Abs letter | Rel letter

fun is_abs :: "command \<Rightarrow> bool" where
  "is_abs (Abs l) = True"
| "is_abs (Rel l) = False"

fun letter_of :: "command \<Rightarrow> letter" where
  "letter_of (Abs l) = l"
| "letter_of (Rel l) = l"

text \<open>
  A segment is the array \<open>[command, ...numbers]\<close>; a path (\<open>PathArray\<close>) is an array
  of segments. The parameter list carries no fixed length: the source builds segments
  of any length (a converted arc is one \<open>'C'\<close> followed by up to 24 numbers).
\<close>

datatype segment = Seg (cmd: command) (args: "jsnum list")

type_synonym path = "segment list"

definition seglen :: "segment \<Rightarrow> int" where
  "seglen s = 1 + int (length (args s))"

text \<open>
  \<open>num_at s k\<close> is \<open>+s[k]\<close>: the number at index \<open>k\<close> of the array, where index 0 is
  the command letter and an index outside the array reads \<open>undefined\<close>.
\<close>

definition num_at :: "segment \<Rightarrow> int \<Rightarrow> jsnum" where
  "num_at s k = (if 1 \<le> k \<and> k < seglen s then args s ! nat (k - 1) else NaN)"

section \<open>The collaborators of transformPath\<close>

text \<open>
  Of \<open>pathToAbsolute\<close>, \<open>normalizePath\<close>, \<open>segmentToCubic\<close>, \<open>fixArc\<close>,
  \<open>getSVGMatrix\<close>, \<open>projection2d\<close>, \<open>paramsParser\<close>, \<open>defaultOptions\<close> and the matrix
  class only the declarations are part of the sources. The numeric ones are parameters
  of the model, collected in an environment; the structural ones are modelled from the
  specification below.
\<close>

record params =
  x1 :: jsnum
  y1 :: jsnum
  x2 :: jsnum
  y2 :: jsnum
  px :: jsnum
  py :: jsnum

text \<open>
  A transform descriptor: every field is optional. \<open>Object.keys\<close> counts the fields
  that are present.
\<close>

datatype tvalue = Scalar jsnum | Vec "jsnum list"

record descriptor =
  translate :: "tvalue option"
  rotate :: "tvalue option"
  scale :: "tvalue option"
  skew :: "tvalue option"
  matrix :: "tvalue option"
  origin :: "(jsnum \<times> jsnum \<times> jsnum) option"

definition keys_count :: "descriptor \<Rightarrow> nat" where
  "keys_count d =
     (if translate d = None then 0 else 1) + (if rotate d = None then 0 else 1) +
     (if scale d = None then 0 else 1) + (if skew d = None then 0 else 1) +
     (if matrix d = None then 0 else 1) + (if origin d = None then 0 else 1)"

text \<open>
  The environment: \<open>parseMatrix\<close> is \<open>new CSSMatrix(string)\<close> (\<open>None\<close> when the
  constructor throws on the string), \<open>getSVGMatrix\<close> composes a descriptor into a
  matrix, \<open>isIdentity\<close> is the matrix property of that name, \<open>projection2d\<close> projects
  a point through a matrix about an origin, \<open>arcToCubic\<close> takes the start point and
  the seven arc parameters to the parameters of one or more cubics, and \<open>paramsParser\<close>
  is the initial parameter object.
\<close>

record 'm env =
  parseMatrix :: "string \<Rightarrow> 'm option"
  getSVGMatrix :: "descriptor \<Rightarrow> 'm"
  isIdentity :: "'m \<Rightarrow> bool"
  projection2d :: "'m \<Rightarrow> jsnum \<times> jsnum \<Rightarrow> jsnum \<times> jsnum \<times> jsnum \<Rightarrow> jsnum \<times> jsnum"
  arcToCubic :: "jsnum list \<Rightarrow> jsnum list"
  paramsParser :: params

text \<open>
  Modelled from the spec: \<open>defaultOptions.origin\<close>, of which only the declaration is
  in the sources. The specification gives the default origin as \<open>[0,0,0]\<close>.
\<close>

definition defaultOrigin :: "jsnum \<times> jsnum \<times> jsnum" where
  "defaultOrigin = (Num 0, Num 0, Num 0)"

subsection \<open>pathToAbsolute\<close>

text \<open>
  Modelled from the spec: \<open>pathToAbsolute\<close>, of which only the declaration is in the
  sources. The converter tracks a running current point \<open>(x, y)\<close> and the start point
  \<open>(mx, my)\<close> of the active subpath; it rewrites relative coordinates by adding the
  running point; a \<open>Z\<close> resets the running point to the subpath start. An absolute
  segment is kept as it is.
\<close>

fun add_alt :: "jsnum \<Rightarrow> jsnum \<Rightarrow> jsnum list \<Rightarrow> jsnum list" where
  "add_alt x y [] = []"
| "add_alt x y [a] = [nadd a x]"
| "add_alt x y (a # b # rest) = nadd a x # nadd b y # add_alt x y rest"

fun absolute_args :: "letter \<Rightarrow> jsnum \<Rightarrow> jsnum \<Rightarrow> jsnum list \<Rightarrow> jsnum list" where
  "absolute_args CA x y vs = take 5 vs @ add_alt x y (drop 5 vs)"
| "absolute_args CH x y vs = map (\<lambda>v. nadd v x) vs"
| "absolute_args CV x y vs = map (\<lambda>v. nadd v y) vs"
| "absolute_args l x y vs = add_alt x y vs"

fun absoluteSegment :: "jsnum \<Rightarrow> jsnum \<Rightarrow> segment \<Rightarrow> segment" where
  "absoluteSegment x y (Seg (Abs l) vs) = Seg (Abs l) vs"
| "absoluteSegment x y (Seg (Rel l) vs) = Seg (Abs l) (absolute_args l x y vs)"

record cursor =
  cur_x :: jsnum
  cur_y :: jsnum
  start_x :: jsnum
  start_y :: jsnum

text \<open>The running point after an absolute segment.\<close>

definition advance :: "cursor \<Rightarrow> segment \<Rightarrow> cursor" where
  "advance c s =
     (case letter_of (cmd s) of
        CZ \<Rightarrow> c\<lparr>cur_x := start_x c, cur_y := start_y c\<rparr>
      | CH \<Rightarrow> c\<lparr>cur_x := num_at s 1\<rparr>
      | CV \<Rightarrow> c\<lparr>cur_y := num_at s 1\<rparr>
      | CM \<Rightarrow> \<lparr>cur_x = num_at s (seglen s - 2), cur_y = num_at s (seglen s - 1),
               start_x = num_at s (seglen s - 2), start_y = num_at s (seglen s - 1)\<rparr>
      | _ \<Rightarrow> c\<lparr>cur_x := num_at s (seglen s - 2), cur_y := num_at s (seglen s - 1)\<rparr>)"

definition origin_cursor :: cursor where
  "origin_cursor = \<lparr>cur_x = Num 0, cur_y = Num 0, start_x = Num 0, start_y = Num 0\<rparr>"

fun toAbsolute_from :: "cursor \<Rightarrow> path \<Rightarrow> path" where
  "toAbsolute_from c [] = []"
| "toAbsolute_from c (s # rest) =
     (let a = absoluteSegment (cur_x c) (cur_y c) s
      in a # toAbsolute_from (advance c a) rest)"

definition pathToAbsolute :: "path \<Rightarrow> path" where
  "pathToAbsolute p = toAbsolute_from origin_cursor p"

subsection \<open>normalizePath\<close>

text \<open>
  Modelled from the spec: \<open>normalizePath\<close> and \<open>normalizeSegment\<close>, of which only the
  declarations are in the sources. Normalize composes ToAbsolute with shorthand
  expansion: the implied control point of a shorthand cubic is the reflection of the
  previous cubic's second control point through the current point, or the current
  point itself if the previous command was not a cubic; a shorthand quadratic reflects
  analogously; \<open>H\<close> and \<open>V\<close> expand to full two-coordinate lines. The output uses only
  \<open>M, L, C, Q, A, Z\<close>.
\<close>

record nstate =
  pos :: cursor
  ctrl_c :: "(jsnum \<times> jsnum) option"
  ctrl_q :: "(jsnum \<times> jsnum) option"

definition reflect :: "cursor \<Rightarrow> (jsnum \<times> jsnum) option \<Rightarrow> jsnum \<times> jsnum" where
  "reflect c prev =
     (case prev of
        None \<Rightarrow> (cur_x c, cur_y c)
      | Some (qx, qy) \<Rightarrow> (nsub (nscale 2 (cur_x c)) qx, nsub (nscale 2 (cur_y c)) qy))"

definition normalizeSegment :: "nstate \<Rightarrow> segment \<Rightarrow> segment" where
  "normalizeSegment st s =
     (case letter_of (cmd s) of
        CH \<Rightarrow> Seg (Abs CL) [num_at s 1, cur_y (pos st)]
      | CV \<Rightarrow> Seg (Abs CL) [cur_x (pos st), num_at s 1]
      | CS \<Rightarrow> (let (rx, ry) = reflect (pos st) (ctrl_c st) in Seg (Abs CC) (rx # ry # args s))
      | CT \<Rightarrow> (let (rx, ry) = reflect (pos st) (ctrl_q st) in Seg (Abs CQ) (rx # ry # args s))
      | l \<Rightarrow> Seg (Abs l) (args s))"

definition nadvance :: "nstate \<Rightarrow> segment \<Rightarrow> nstate" where
  "nadvance st n =
     \<lparr>pos = advance (pos st) n,
      ctrl_c = (if letter_of (cmd n) = CC
                then Some (num_at n (seglen n - 4), num_at n (seglen n - 3)) else None),
      ctrl_q = (if letter_of (cmd n) = CQ
                then Some (num_at n (seglen n - 4), num_at n (seglen n - 3)) else None)\<rparr>"

fun normalize_from :: "nstate \<Rightarrow> path \<Rightarrow> path" where
  "normalize_from st [] = []"
| "normalize_from st (s # rest) =
     (let n = normalizeSegment st s in n # normalize_from (nadvance st n) rest)"

definition normalizePath :: "path \<Rightarrow> path" where
  "normalizePath p =
     normalize_from \<lparr>pos = origin_cursor, ctrl_c = None, ctrl_q = None\<rparr> (pathToAbsolute p)"

subsection \<open>segmentToCubic and fixArc\<close>

text \<open>
  Modelled from the spec: \<open>segmentToCubic\<close>, \<open>lineToCubic\<close> and \<open>quadToCubic\<close>, of
  which only the declarations are in the sources. A line becomes a degenerate cubic
  whose control points lie on the line, keeping the linear parameterization; a
  quadratic is degree-raised with the control points \<open>start + 2/3 (ctrl - start)\<close> and
  \<open>end + 2/3 (ctrl - end)\<close>; an arc becomes the cubics of \<open>arcToCubic\<close>, all in one
  \<open>'C'\<close> array; \<open>M\<close>, \<open>C\<close> and \<open>Z\<close> are kept. The start point of the segment is
  \<open>(params.x1, params.y1)\<close> and its end point is its last two parameters; an \<open>M\<close>
  records the subpath start in the parameter object.
\<close>

definition towards :: "real \<Rightarrow> jsnum \<Rightarrow> jsnum \<Rightarrow> jsnum" where
  "towards k a b = nadd a (nscale k (nsub b a))"

definition lineToCubic :: "jsnum \<Rightarrow> jsnum \<Rightarrow> jsnum \<Rightarrow> jsnum \<Rightarrow> jsnum list" where
  "lineToCubic ax ay bx by =
     [towards (1/3) ax bx, towards (1/3) ay by, towards (2/3) ax bx, towards (2/3) ay by, bx, by]"

definition quadToCubic ::
  "jsnum \<Rightarrow> jsnum \<Rightarrow> jsnum \<Rightarrow> jsnum \<Rightarrow> jsnum \<Rightarrow> jsnum \<Rightarrow> jsnum list" where
  "quadToCubic ax ay qx qy bx by =
     [towards (2/3) ax qx, towards (2/3) ay qy, towards (2/3) bx qx, towards (2/3) by qy, bx, by]"

definition segmentToCubic :: "'m env \<Rightarrow> segment \<Rightarrow> params \<Rightarrow> segment \<times> params" where
  "segmentToCubic env sg ps =
     (case cmd sg of
        Abs CM \<Rightarrow>
          (sg, ps\<lparr>px := num_at sg (seglen sg - 2), py := num_at sg (seglen sg - 1)\<rparr>)
      | Abs CA \<Rightarrow> (Seg (Abs CC) (arcToCubic env (x1 ps # y1 ps # args sg)), ps)
      | Abs CQ \<Rightarrow>
          (Seg (Abs CC) (quadToCubic (x1 ps) (y1 ps) (num_at sg 1) (num_at sg 2)
             (num_at sg (seglen sg - 2)) (num_at sg (seglen sg - 1))), ps)
      | Abs CL \<Rightarrow>
          (Seg (Abs CC) (lineToCubic (x1 ps) (y1 ps)
             (num_at sg (seglen sg - 2)) (num_at sg (seglen sg - 1))), ps)
      | _ \<Rightarrow> (sg, ps))"

text \<open>
  Modelled from the spec: \<open>fixArc\<close>, of which only the declaration is in the sources.
  It splits an extended cubic array (one \<open>'C'\<close> with the parameters of several cubics,
  so longer than 7) into one \<open>'C'\<close> segment for every six parameters, in place of the
  segment at index \<open>i\<close>. Its second argument, the array of the commands seen so far,
  is only written and is left out of the model.
\<close>

fun chunks6 :: "'a list \<Rightarrow> 'a list list" where
  "chunks6 (a # b # c # d # e # f # rest) = [a, b, c, d, e, f] # chunks6 rest"
| "chunks6 [] = []"
| "chunks6 xs = [xs]"

definition fixArc :: "path \<Rightarrow> nat \<Rightarrow> path" where
  "fixArc p i =
     (if i < length p \<and> 7 < seglen (p ! i)
      then take i p @ map (Seg (Abs CC)) (chunks6 (args (p ! i))) @ drop (Suc i) p
      else p)"

subsection \<open>pathToCurve\<close>

text \<open>
  Modelled from the spec: \<open>pathToCurve\<close> and \<open>fixPath\<close>, of which only the
  declarations are in the sources. The curve converter reduces a normalized sequence
  to \<open>M, C, Z\<close>: lines and quadratics become one cubic each, an arc becomes the one to
  four cubics of its conversion, \<open>M\<close>, \<open>C\<close> and \<open>Z\<close> are kept. The running point is
  the end point of the last segment produced, and after a \<open>Z\<close> the start of the
  subpath. A trailing close segment of the reduced sequence is dropped when it is
  redundant: when the segment before it has an end point of its own (it is no \<open>Z\<close>),
  that end point coincides with the start of the subpath, and the subpath contains
  other segments (the segment before the close is not the \<open>M\<close> of the subpath).
\<close>

definition end_point :: "segment \<Rightarrow> jsnum \<times> jsnum" where
  "end_point s = (num_at s (seglen s - 2), num_at s (seglen s - 1))"

definition split_cubic :: "segment \<Rightarrow> path" where
  "split_cubic c = (if 7 < seglen c then map (Seg (Abs CC)) (chunks6 (args c)) else [c])"

definition cubics_of :: "'m env \<Rightarrow> params \<Rightarrow> segment \<Rightarrow> path" where
  "cubics_of env ps s =
     (let c = fst (segmentToCubic env s ps) in if cmd s = Abs CA then split_cubic c else [c])"

definition params_next :: "'m env \<Rightarrow> params \<Rightarrow> segment \<Rightarrow> params" where
  "params_next env ps s =
     (let ps1 = snd (segmentToCubic env s ps)
      in if cmd s = Abs CZ then ps1\<lparr>x1 := px ps1, y1 := py ps1\<rparr>
         else ps1\<lparr>x1 := fst (end_point (last (cubics_of env ps s))),
                  y1 := snd (end_point (last (cubics_of env ps s)))\<rparr>)"

fun curve_from :: "'m env \<Rightarrow> params \<Rightarrow> path \<Rightarrow> path" where
  "curve_from env ps [] = []"
| "curve_from env ps (s # rest) = cubics_of env ps s @ curve_from env (params_next env ps s) rest"

definition is_move :: "segment \<Rightarrow> bool" where
  "is_move s = (cmd s = Abs CM)"

definition subpath_start :: "path \<Rightarrow> (jsnum \<times> jsnum) option" where
  "subpath_start p =
     (if filter is_move p = [] then None else Some (end_point (last (filter is_move p))))"

definition redundant_close :: "path \<Rightarrow> bool" where
  "redundant_close p =
     (2 \<le> length p \<and> cmd (last p) = Abs CZ \<and>
      cmd (last (butlast p)) \<noteq> Abs CM \<and> cmd (last (butlast p)) \<noteq> Abs CZ \<and>
      (case subpath_start p of
         None \<Rightarrow> False
       | Some (mx, my) \<Rightarrow>
           strict_eq (fst (end_point (last (butlast p)))) mx \<and>
           strict_eq (snd (end_point (last (butlast p)))) my))"

definition fixPath :: "path \<Rightarrow> path" where
  "fixPath p = (if redundant_close p then butlast p else p)"

definition pathToCurve :: "'m env \<Rightarrow> path \<Rightarrow> path" where
  "pathToCurve env p = fixPath (curve_from env (paramsParser env) (normalizePath p))"

text \<open>The form predicates: normalized segments, and segments of curve form.\<close>

definition normal :: "segment \<Rightarrow> bool" where
  "normal s = (cmd s = Abs CM \<or> cmd s = Abs CL \<or> cmd s = Abs CC \<or> cmd s = Abs CQ \<or>
               cmd s = Abs CA \<or> cmd s = Abs CZ)"

definition curve :: "segment \<Rightarrow> bool" where
  "curve s = (cmd s = Abs CM \<or> cmd s = Abs CC \<or> cmd s = Abs CZ)"

section \<open>transformPath\<close>

datatype error = InvalidMatrixInstance | TypeError | MatrixSyntaxError

datatype 'm transform = TString string | TMatrix 'm | TObject descriptor | TAbsent

text \<open>An element of \<open>transformedPath\<close>: the object \<open>{s, c, x, y}\<close>.\<close>

record pathTransform =
  seg_s :: segment
  seg_c :: command
  seg_x :: jsnum
  seg_y :: jsnum

text \<open>
  The state of the first loop. The variable \<open>pathCommand\<close> is assigned anew in every
  iteration before it is read, and \<open>allPathCommands\<close> is only written; neither is part
  of the state.
\<close>

record loop_state =
  absolutePath :: path
  normalizedPath :: path
  prm :: params
  transformedPath :: "pathTransform list"
  ii :: nat

text \<open>
  The replacement of an arc at index \<open>i\<close> (lines 85 to 94): three calls of
  \<open>segmentToCubic\<close> on \<open>normalizedPath[i]\<close>, the second stored in \<open>absolutePath[i]\<close>,
  the third in \<open>normalizedPath[i]\<close>, each array then split by \<open>fixArc\<close>.
\<close>

definition arc_step :: "'m env \<Rightarrow> nat \<Rightarrow> loop_state \<Rightarrow> loop_state" where
  "arc_step env i st =
     (let (c1, p1) = segmentToCubic env (normalizedPath st ! i) (prm st);
          (c2, p2) = segmentToCubic env (normalizedPath st ! i) p1;
          ap = fixArc ((absolutePath st)[i := c2]) i;
          (c3, p3) = segmentToCubic env (normalizedPath st ! i) p2;
          np = fixArc ((normalizedPath st)[i := c3]) i
      in st\<lparr>absolutePath := ap, normalizedPath := np, prm := p3,
             ii := max (length ap) (length np)\<rparr>)"

text \<open>
  One iteration of the first loop (lines 74 to 112). The two arrays have the same
  length in every reachable state; reading a segment past the end of either is the
  \<open>TypeError\<close> of taking a property of \<open>undefined\<close>.
\<close>

definition loop_body :: "'m env \<Rightarrow> nat \<Rightarrow> loop_state \<Rightarrow> error + loop_state" where
  "loop_body env i st =
     (if length (absolutePath st) \<le> i \<or> length (normalizedPath st) \<le> i then Inl TypeError
      else
        let pathCommand = cmd (absolutePath st ! i);
            st1 = (if pathCommand = Abs CA then arc_step env i st else st);
            segment = normalizedPath st1 ! i;
            n = seglen segment;
            nx1 = num_at segment (n - 2);
            ny1 = num_at segment (n - 1);
            nx2 = js_or (num_at segment (n - 4)) nx1;
            ny2 = js_or (num_at segment (n - 3)) ny1;
            result = \<lparr>seg_s = absolutePath st1 ! i, seg_c = cmd (absolutePath st1 ! i),
                      seg_x = nx1, seg_y = ny1\<rparr>
        in Inr (st1\<lparr>prm := (prm st1)\<lparr>x1 := nx1, y1 := ny1, x2 := nx2, y2 := ny2\<rparr>,
                    transformedPath := transformedPath st1 @ [result]\<rparr>))"

definition count_arcs :: "path \<Rightarrow> nat" where
  "count_arcs p = length (filter (\<lambda>s. cmd s = Abs CA) p)"

text \<open>Facts about \<open>fixArc\<close> and \<open>arc_step\<close> that the termination of the loop needs.\<close>

lemma chunks6_ne: "xs \<noteq> [] \<Longrightarrow> chunks6 xs \<noteq> []"
  by (induction xs rule: chunks6.induct) auto

lemma count_arcs_append: "count_arcs (p @ q) = count_arcs p + count_arcs q"
  by (simp add: count_arcs_def)

lemma count_arcs_cubics: "count_arcs (map (Seg (Abs CC)) xs) = 0"
  by (induction xs) (auto simp: count_arcs_def)

lemma segmentToCubic_not_arc: "cmd (fst (segmentToCubic env sg ps)) \<noteq> Abs CA"
  by (cases sg) (auto simp: segmentToCubic_def split: command.splits letter.splits)

lemma fixArc_length:
  "length (fixArc p i) =
     (if i < length p \<and> 7 < seglen (p ! i)
      then length p - 1 + length (chunks6 (args (p ! i))) else length p)"
  by (auto simp: fixArc_def)

lemma drop_fixArc:
  "i < length p \<Longrightarrow> count_arcs (drop (Suc i) (fixArc p i)) = count_arcs (drop (Suc i) p)"
proof (cases "7 < seglen (p ! i)")
  case False
  then show ?thesis by (simp add: fixArc_def)
next
  case True
  assume i: "i < length p"
  from True have "args (p ! i) \<noteq> []" by (auto simp: seglen_def)
  then obtain c cs where cs: "chunks6 (args (p ! i)) = c # cs"
    using chunks6_ne by (cases "chunks6 (args (p ! i))") auto
  have "fixArc p i = (take i p @ [Seg (Abs CC) c]) @ map (Seg (Abs CC)) cs @ drop (Suc i) p"
    using True i by (simp add: fixArc_def cs)
  moreover have "length (take i p @ [Seg (Abs CC) c]) = Suc i" using i by simp
  ultimately have "drop (Suc i) (fixArc p i) = map (Seg (Abs CC)) cs @ drop (Suc i) p"
    by (metis append_eq_conv_conj)
  then show ?thesis by (simp add: count_arcs_append count_arcs_cubics)
qed

lemma count_arcs_drop_Suc:
  "i < length p \<Longrightarrow> count_arcs (drop i p) = (if cmd (p ! i) = Abs CA then 1 else 0) + count_arcs (drop (Suc i) p)"
  by (simp add: count_arcs_def Cons_nth_drop_Suc[symmetric])

lemma arc_step_measure:
  assumes "i < length (absolutePath st)" "cmd (absolutePath st ! i) = Abs CA"
  shows "count_arcs (drop (Suc i) (absolutePath (arc_step env i st))) < count_arcs (drop i (absolutePath st))"
proof -
  have "count_arcs (drop (Suc i) (absolutePath (arc_step env i st)))
        = count_arcs (drop (Suc i) (absolutePath st))"
    using assms(1) by (simp add: arc_step_def Let_def split_def drop_fixArc)
  then show ?thesis using assms by (simp add: count_arcs_drop_Suc)
qed

text \<open>
  The first loop (line 73): \<open>for (i = 0, ii = absolutePath.length; i < ii; i += 1)\<close>,
  where the body may raise \<open>ii\<close>. It terminates because an iteration that raises
  \<open>ii\<close> removes an arc from the rest of \<open>absolutePath\<close>.
\<close>

function loop1 :: "'m env \<Rightarrow> nat \<Rightarrow> loop_state \<Rightarrow> error + loop_state" where
  "loop1 env i st =
     (if i < ii st
      then (case loop_body env i st of Inl e \<Rightarrow> Inl e | Inr st' \<Rightarrow> loop1 env (i + 1) st')
      else Inr st)"
  by pat_completeness auto
termination
proof (relation "measures [\<lambda>(env, i, st). count_arcs (drop i (absolutePath st)), \<lambda>(env, i, st). ii st - i]")
  show "wf (measures [\<lambda>(env, i, st). count_arcs (drop i (absolutePath st)), \<lambda>(env::'m env, i, st). ii st - i])" by simp
next
  fix env :: "'m env" and i st st'
  assume lt: "i < ii st" and body: "loop_body env i st = Inr st'"
  from body have inr: "i < length (absolutePath st)"
    by (auto simp: loop_body_def split: if_splits)
  show "((env, i + 1, st'), (env, i, st)) \<in> measures [\<lambda>(env, i, st). count_arcs (drop i (absolutePath st)), \<lambda>(env, i, st). ii st - i]"
  proof (cases "cmd (absolutePath st ! i) = Abs CA")
    case True
    then have "absolutePath st' = absolutePath (arc_step env i st)"
      using body inr by (auto simp: loop_body_def Let_def split: if_splits)
    then show ?thesis using arc_step_measure[OF inr True, of env] by simp
  next
    case False
    then have "absolutePath st' = absolutePath st" "ii st' = ii st"
      using body inr by (auto simp: loop_body_def Let_def split: if_splits)
    then show ?thesis using lt False inr by (auto simp: count_arcs_drop_Suc)
  qed
qed

declare loop1.simps [simp del]

text \<open>
  The second phase (lines 115 to 144), one element of \<open>transformedPath\<close> at a time.
  The variables \<open>x\<close> and \<open>y\<close> hold the last projected point. A line segment is
  rebuilt from its projected end point; any other segment has its parameters projected
  pair by pair, in place. The loop over the pairs reads \<open>segment[j + 1]\<close> past the end
  of an array with an odd number of parameters (\<open>NaN\<close>) and the write to that index
  extends the array.
\<close>

fun project_args ::
  "(jsnum \<times> jsnum \<Rightarrow> jsnum \<times> jsnum) \<Rightarrow> jsnum list \<Rightarrow> jsnum \<times> jsnum
     \<Rightarrow> jsnum list \<times> (jsnum \<times> jsnum)" where
  "project_args pr [] xy = ([], xy)"
| "project_args pr [a] xy = (let (u, v) = pr (a, NaN) in ([u, v], (u, v)))"
| "project_args pr (a # b # rest) xy =
     (let (u, v) = pr (a, b);
          (rs, xy') = project_args pr rest (u, v)
      in (u # v # rs, xy'))"

definition project_seg ::
  "(jsnum \<times> jsnum \<Rightarrow> jsnum \<times> jsnum) \<Rightarrow> jsnum \<times> jsnum \<Rightarrow> pathTransform
     \<Rightarrow> segment \<times> (jsnum \<times> jsnum)" where
  "project_seg pr xy sg =
     (let pathCommand = seg_c sg; segment = seg_s sg; (x, y) = xy
      in if pathCommand = Abs CL \<or> pathCommand = Abs CH \<or> pathCommand = Abs CV
         then
           let (lx, ly) = pr (seg_x sg, seg_y sg);
               segment' =
                 (if \<not> strict_eq x lx \<and> \<not> strict_eq y ly then Seg (Abs CL) [lx, ly]
                  else if strict_eq y ly then Seg (Abs CH) [lx]
                  else if strict_eq x lx then Seg (Abs CV) [ly]
                  else segment)
           in (segment', (lx, ly))
         else
           let (vs, xy') = project_args pr (args segment) (x, y)
           in (Seg (cmd segment) vs, xy'))"

fun project_all ::
  "(jsnum \<times> jsnum \<Rightarrow> jsnum \<times> jsnum) \<Rightarrow> jsnum \<times> jsnum \<Rightarrow> pathTransform list \<Rightarrow> path" where
  "project_all pr xy [] = []"
| "project_all pr xy (sg # rest) =
     (let (segment, xy') = project_seg pr xy sg in segment # project_all pr xy' rest)"

text \<open>
  Lines 61 to 146, from the check of the matrix on. The variable \<open>matrixInstance\<close> is
  an optional value here, \<open>None\<close> standing for a falsy one, so that the check of line 61
  is a branch of the model.
\<close>

definition applyMatrix ::
  "'m env \<Rightarrow> path \<Rightarrow> path \<Rightarrow> 'm option \<Rightarrow> jsnum \<times> jsnum \<times> jsnum \<Rightarrow> error + path" where
  "applyMatrix env absPath normPath matrixInstance orig =
     (case matrixInstance of
        None \<Rightarrow> Inl InvalidMatrixInstance
      | Some m \<Rightarrow>
          if \<not> isIdentity env m
          then
            (case loop1 env 0 \<lparr>absolutePath = absPath, normalizedPath = normPath,
                                 prm = paramsParser env, transformedPath = [],
                                 ii = length absPath\<rparr> of
               Inl e \<Rightarrow> Inl e
             | Inr st \<Rightarrow>
                 Inr (project_all (\<lambda>pt. projection2d env m pt orig) (Num 0, Num 0)
                        (transformedPath st)))
          else Inr absPath)"

text \<open>
  Lines 36 to 59: the two conversions of the path, then the matrix and the origin from
  the transform argument. An absent transform and a descriptor without keys return the
  absolute path at once. A descriptor without an origin is given the default one before
  \<open>getSVGMatrix\<close> is called. The path argument is a \<open>PathArray\<close>; a path given as text
  is parsed by \<open>pathToAbsolute\<close> first.
\<close>

definition with_origin :: "descriptor \<Rightarrow> descriptor" where
  "with_origin d = (if origin d = None then d\<lparr>origin := Some defaultOrigin\<rparr> else d)"

definition transformPath :: "'m env \<Rightarrow> path \<Rightarrow> 'm transform \<Rightarrow> error + path" where
  "transformPath env pth transform =
     (let absPath = pathToAbsolute pth;
          normPath = normalizePath absPath;
          zero = (Num 0, Num 0, Num 0)
      in case transform of
           TString str \<Rightarrow>
             (case parseMatrix env str of
                None \<Rightarrow> Inl MatrixSyntaxError
              | Some m \<Rightarrow> applyMatrix env absPath normPath (Some m) zero)
         | TMatrix m \<Rightarrow> applyMatrix env absPath normPath (Some m) zero
         | TAbsent \<Rightarrow> Inr absPath
         | TObject d \<Rightarrow>
             if keys_count d = 0 then Inr absPath
             else
               let d' = with_origin d;
                   m = getSVGMatrix env d';
                   orig = (case origin d' of Some og \<Rightarrow> og | None \<Rightarrow> zero)
               in applyMatrix env absPath normPath (Some m) orig)"

text \<open>
  The matrix that the transform argument resolves to (lines 42 to 59), if any, and the
  arguments that denote the identity: an absent transform, a descriptor without keys,
  and any argument whose matrix has \<open>isIdentity\<close>.
\<close>

definition matrix_of :: "'m env \<Rightarrow> 'm transform \<Rightarrow> 'm option" where
  "matrix_of env transform =
     (case transform of
        TString str \<Rightarrow> parseMatrix env str
      | TMatrix m \<Rightarrow> Some m
      | TAbsent \<Rightarrow> None
      | TObject d \<Rightarrow> if keys_count d = 0 then None else Some (getSVGMatrix env (with_origin d)))"

definition denotes_identity :: "'m env \<Rightarrow> 'm transform \<Rightarrow> bool" where
  "denotes_identity env transform =
     (case transform of
        TAbsent \<Rightarrow> True
      | TObject d \<Rightarrow> keys_count d = 0 \<or> isIdentity env (getSVGMatrix env (with_origin d))
      | TMatrix m \<Rightarrow> isIdentity env m
      | TString str \<Rightarrow> (case parseMatrix env str of Some m \<Rightarrow> isIdentity env m | None \<Rightarrow> False))"

text \<open>
  The cubic that an arc step stores at index \<open>i\<close> of both arrays; the invariant of the
  first loop; its initial state; the origin that the transform argument resolves to.
\<close>

definition arc_cubic :: "'m env \<Rightarrow> nat \<Rightarrow> loop_state \<Rightarrow> segment" where
  "arc_cubic env i st = fst (segmentToCubic env (normalizedPath st ! i) (prm st))"

definition len_inv :: "loop_state \<Rightarrow> bool" where
  "len_inv st =
     (length (absolutePath st) = length (normalizedPath st) \<and> ii st = length (absolutePath st))"

definition start_state :: "'m env \<Rightarrow> path \<Rightarrow> path \<Rightarrow> loop_state" where
  "start_state env a n = \<lparr>absolutePath = a, normalizedPath = n, prm = paramsParser env,
     transformedPath = [], ii = length a\<rparr>"

definition origin_of :: "'m transform \<Rightarrow> jsnum \<times> jsnum \<times> jsnum" where
  "origin_of transform =
     (case transform of
        TObject d \<Rightarrow> (case origin (with_origin d) of Some og \<Rightarrow> og | None \<Rightarrow> (Num 0, Num 0, Num 0))
      | _ \<Rightarrow> (Num 0, Num 0, Num 0))"

text \<open>
  The running point before segment \<open>k\<close> of an absolute path: the current point of the
  path language after the first \<open>k\<close> segments, where a \<open>Z\<close> goes back to the start of
  the subpath.
\<close>

definition running_point :: "path \<Rightarrow> nat \<Rightarrow> jsnum \<times> jsnum" where
  "running_point p k = (let c = foldl advance origin_cursor (take k p) in (cur_x c, cur_y c))"

text \<open>
  The two arrays after the first loop, described segment by segment, as a list of pairs
  of a segment of \<open>absolutePath\<close> and the segment of \<open>normalizedPath\<close> at the same
  index. A segment that is no arc stays, with its normalized segment. An arc is replaced
  in both arrays by the cubics of \<open>segmentToCubic\<close>, applied to the normalized segment
  with the running point as the start point: one cubic, or the cubics that an extended
  array splits into. The running point is the end point of the normalized segment
  before. \<open>entry_of\<close> is the object \<open>{s, c, x, y}\<close> that the loop records for a pair,
  \<open>cubic_form\<close> the pairs for the two forms of a path, and \<open>projected\<close> the second phase
  applied to them: the path that \<open>transformPath\<close> is to return for a matrix that is not
  the identity.
\<close>

definition entry_of :: "segment \<times> segment \<Rightarrow> pathTransform" where
  "entry_of an = \<lparr>seg_s = fst an, seg_c = cmd (fst an),
                   seg_x = fst (end_point (snd an)), seg_y = snd (end_point (snd an))\<rparr>"

definition params_at :: "'m env \<Rightarrow> jsnum \<times> jsnum \<Rightarrow> params" where
  "params_at env xy = (paramsParser env)\<lparr>x1 := fst xy, y1 := snd xy\<rparr>"

fun arcs_to_cubics ::
  "'m env \<Rightarrow> jsnum \<times> jsnum \<Rightarrow> path \<Rightarrow> path \<Rightarrow> (segment \<times> segment) list" where
  "arcs_to_cubics env xy (a # as) (n # ns) =
     (if cmd a = Abs CA
      then let cs = split_cubic (fst (segmentToCubic env n (params_at env xy)))
           in map (\<lambda>c. (c, c)) cs @ arcs_to_cubics env (end_point (last cs)) as ns
      else (a, n) # arcs_to_cubics env (end_point n) as ns)"
| "arcs_to_cubics env xy [] ns = []"
| "arcs_to_cubics env xy as [] = []"

definition cubic_form :: "'m env \<Rightarrow> path \<Rightarrow> (segment \<times> segment) list" where
  "cubic_form env pth =
     arcs_to_cubics env (x1 (paramsParser env), y1 (paramsParser env))
       (pathToAbsolute pth) (normalizePath (pathToAbsolute pth))"

definition projected :: "'m env \<Rightarrow> 'm \<Rightarrow> jsnum \<times> jsnum \<times> jsnum \<Rightarrow> path \<Rightarrow> path" where
  "projected env m og pth =
     project_all (\<lambda>pt. projection2d env m pt og) (Num 0, Num 0) (map entry_of (cubic_form env pth))"

section \<open>transformPath on a store\<close>

text \<open>
  \<open>transformPath\<close> assigns to elements of segments (\<open>segment[j] = x\<close>, line 138) and
  \<open>fixArc\<close> empties a segment by \<open>shift\<close> and \<open>splice\<close>. Whether such a write reaches
  an object of the caller depends on which objects are shared, so segments live in a
  store here and arrays of segments are lists of addresses. A cell holds a segment, or
  the empty array that \<open>fixArc\<close> leaves behind. The arrays themselves are values: the
  only arrays written are \<open>absolutePath\<close> and \<open>normalizedPath\<close>, the ones that
  \<open>pathToAbsolute\<close> and \<open>normalizePath\<close> return.
\<close>

datatype cell = Cell segment | Spliced

type_synonym addr = nat

type_synonym store = "cell list"

text \<open>
  Reading a cell. An address beyond the store reads as the empty array; no address in
  the model is ever beyond the store.
\<close>

definition fetch :: "store \<Rightarrow> addr \<Rightarrow> cell" where
  "fetch h a = (if a < length h then h ! a else Spliced)"

text \<open>
  What the source reads of an array: its command \<open>a[0]\<close> (\<open>undefined\<close> for the empty
  array), its length, and \<open>+a[k]\<close>.
\<close>

fun cell_seg :: "cell \<Rightarrow> segment option" where
  "cell_seg (Cell s) = Some s"
| "cell_seg Spliced = None"

fun cell_cmd :: "cell \<Rightarrow> command option" where
  "cell_cmd (Cell s) = Some (cmd s)"
| "cell_cmd Spliced = None"

fun cell_len :: "cell \<Rightarrow> int" where
  "cell_len (Cell s) = seglen s"
| "cell_len Spliced = 0"

fun cell_num_at :: "cell \<Rightarrow> int \<Rightarrow> jsnum" where
  "cell_num_at (Cell s) k = num_at s k"
| "cell_num_at Spliced k = NaN"

text \<open>A new array is a new cell at the end of the store.\<close>

definition alloc :: "store \<Rightarrow> segment \<Rightarrow> addr \<times> store" where
  "alloc h s = (length h, h @ [Cell s])"

fun alloc_all :: "store \<Rightarrow> path \<Rightarrow> addr list \<times> store" where
  "alloc_all h [] = ([], h)"
| "alloc_all h (s # rest) =
     (let (a, h1) = alloc h s; (refs, h2) = alloc_all h1 rest in (a # refs, h2))"

text \<open>
  Modelled from the spec: \<open>segmentToCubic\<close> on the store. The cubic of a line, a
  quadratic or an arc is a new array; any other segment is returned as it is, the same
  object.
\<close>

definition segmentToCubic_st ::
  "'m env \<Rightarrow> store \<Rightarrow> addr \<Rightarrow> params \<Rightarrow> (addr \<times> params) \<times> store" where
  "segmentToCubic_st env h n ps =
     (case fetch h n of
        Spliced \<Rightarrow> ((n, ps), h)
      | Cell sg \<Rightarrow>
          (let (c, ps') = segmentToCubic env sg ps
           in if cmd sg = Abs CA \<or> cmd sg = Abs CQ \<or> cmd sg = Abs CL
              then (let (r, h') = alloc h c in ((r, ps'), h'))
              else ((n, ps'), h)))"

text \<open>
  Modelled from the spec: \<open>fixArc\<close> on the store. The extended array at index \<open>i\<close> is
  emptied (\<open>shift\<close>, then \<open>splice(0, 6)\<close> until nothing is left) and removed from the
  path; each six parameters taken from it are a new \<open>'C'\<close> array.
\<close>

definition fixArc_st :: "store \<Rightarrow> addr list \<Rightarrow> nat \<Rightarrow> addr list \<times> store" where
  "fixArc_st h p i =
     (if i < length p \<and> 7 < cell_len (fetch h (p ! i))
      then
        (case fetch h (p ! i) of
           Spliced \<Rightarrow> (p, h)
         | Cell sg \<Rightarrow>
             (let (refs, h') = alloc_all (h[p ! i := Spliced])
                                 (map (Seg (Abs CC)) (chunks6 (args sg)))
              in (take i p @ refs @ drop (Suc i) p, h')))
      else (p, h))"

text \<open>
  The first loop on the store: as \<open>loop_body\<close>, with \<open>s\<close> a reference and every read
  of a segment a read of the store.
\<close>

record refTransform =
  ref_s :: addr
  ref_c :: "command option"
  ref_x :: jsnum
  ref_y :: jsnum

record loop_refs =
  absRefs :: "addr list"
  normRefs :: "addr list"
  prmR :: params
  transformedRefs :: "refTransform list"
  iiR :: nat

definition arc_step_st :: "'m env \<Rightarrow> nat \<Rightarrow> store \<Rightarrow> loop_refs \<Rightarrow> loop_refs \<times> store" where
  "arc_step_st env i h st =
     (let n = normRefs st ! i;
          ((r1, p1), h1) = segmentToCubic_st env h n (prmR st);
          ((r2, p2), h2) = segmentToCubic_st env h1 n p1;
          (ap, h3) = fixArc_st h2 ((absRefs st)[i := r2]) i;
          ((r3, p3), h4) = segmentToCubic_st env h3 n p2;
          (np, h5) = fixArc_st h4 ((normRefs st)[i := r3]) i
      in (st\<lparr>absRefs := ap, normRefs := np, prmR := p3,
              iiR := max (length ap) (length np)\<rparr>, h5))"

definition loop_body_st ::
  "'m env \<Rightarrow> nat \<Rightarrow> store \<Rightarrow> loop_refs \<Rightarrow> (error + loop_refs) \<times> store" where
  "loop_body_st env i h st =
     (if length (absRefs st) \<le> i \<or> length (normRefs st) \<le> i then (Inl TypeError, h)
      else
        let pathCommand = cell_cmd (fetch h (absRefs st ! i));
            (st1, h1) = (if pathCommand = Some (Abs CA) then arc_step_st env i h st else (st, h));
            segment = fetch h1 (normRefs st1 ! i);
            n = cell_len segment;
            nx1 = cell_num_at segment (n - 2);
            ny1 = cell_num_at segment (n - 1);
            nx2 = js_or (cell_num_at segment (n - 4)) nx1;
            ny2 = js_or (cell_num_at segment (n - 3)) ny1;
            result = \<lparr>ref_s = absRefs st1 ! i, ref_c = cell_cmd (fetch h1 (absRefs st1 ! i)),
                      ref_x = nx1, ref_y = ny1\<rparr>
        in (Inr (st1\<lparr>prmR := (prmR st1)\<lparr>x1 := nx1, y1 := ny1, x2 := nx2, y2 := ny2\<rparr>,
                     transformedRefs := transformedRefs st1 @ [result]\<rparr>), h1))"

text \<open>The arcs among the cells, for the termination of the loop.\<close>

definition is_arc :: "store \<Rightarrow> addr \<Rightarrow> bool" where
  "is_arc h a = (cell_cmd (fetch h a) = Some (Abs CA))"

definition count_arcs_st :: "store \<Rightarrow> addr list \<Rightarrow> nat" where
  "count_arcs_st h refs = length (filter (is_arc h) refs)"

text \<open>No operation of the loop makes a cell an arc that was none before.\<close>

definition arcs_le :: "store \<Rightarrow> store \<Rightarrow> bool" where
  "arcs_le h h' = (\<forall>a. is_arc h' a \<longrightarrow> is_arc h a)"

lemma arcs_le_refl: "arcs_le h h"
  by (simp add: arcs_le_def)

lemma arcs_le_trans: "arcs_le h h1 \<Longrightarrow> arcs_le h1 h2 \<Longrightarrow> arcs_le h h2"
  by (simp add: arcs_le_def)

lemma alloc_all_eq:
  "alloc_all h ss = ([length h ..< length h + length ss], h @ map Cell ss)"
proof (induction ss arbitrary: h)
  case Nil
  then show ?case by simp
next
  case (Cons s ss)
  have "[length h ..< length h + Suc (length ss)] =
        length h # [Suc (length h) ..< length h + Suc (length ss)]"
    by (rule upt_conv_Cons) simp
  with Cons[of "h @ [Cell s]"] show ?case by (simp add: alloc_def)
qed

lemma fetch_append:
  "fetch (h @ cs) a = (if a < length h then fetch h a
     else if a < length h + length cs then cs ! (a - length h) else Spliced)"
  by (auto simp: fetch_def nth_append)

lemma fetch_update: "fetch (h[b := c]) a = (if a = b \<and> b < length h then c else fetch h a)"
  by (auto simp: fetch_def)

lemma arcs_le_append:
  "\<forall>c \<in> set cs. cell_cmd c \<noteq> Some (Abs CA) \<Longrightarrow> arcs_le h (h @ cs)"
  by (auto simp: arcs_le_def is_arc_def fetch_append)

lemma arcs_le_spliced: "arcs_le h (h[b := Spliced])"
  by (auto simp: arcs_le_def is_arc_def fetch_update)

lemma segmentToCubic_st_arcs: "arcs_le h (snd (segmentToCubic_st env h n ps))"
proof (cases "fetch h n")
  case Spliced
  then show ?thesis by (simp add: segmentToCubic_st_def arcs_le_refl)
next
  case (Cell sg)
  have "arcs_le h (h @ [Cell (fst (segmentToCubic env sg ps))])"
    by (rule arcs_le_append) (simp add: segmentToCubic_not_arc)
  with Cell show ?thesis
    by (simp add: segmentToCubic_st_def split_def alloc_def Let_def arcs_le_refl)
qed

lemma fixArc_st_arcs: "arcs_le h (snd (fixArc_st h p i))"
proof (cases "i < length p \<and> 7 < cell_len (fetch h (p ! i))")
  case False
  then show ?thesis by (auto simp: fixArc_st_def arcs_le_refl)
next
  case True
  then obtain sg where sg: "fetch h (p ! i) = Cell sg" by (cases "fetch h (p ! i)") auto
  have "arcs_le (h[p ! i := Spliced])
          (h[p ! i := Spliced] @ map Cell (map (Seg (Abs CC)) (chunks6 (args sg))))"
    by (rule arcs_le_append) auto
  with arcs_le_spliced[of h "p ! i"] have
    "arcs_le h (h[p ! i := Spliced] @ map Cell (map (Seg (Abs CC)) (chunks6 (args sg))))"
    by (rule arcs_le_trans)
  with True sg show ?thesis by (simp add: fixArc_st_def alloc_all_eq)
qed

lemma count_arcs_st_mono: "arcs_le h h' \<Longrightarrow> count_arcs_st h' refs \<le> count_arcs_st h refs"
  by (induction refs) (auto simp: count_arcs_st_def arcs_le_def)

lemma count_arcs_st_append:
  "count_arcs_st h (p @ q) = count_arcs_st h p + count_arcs_st h q"
  by (simp add: count_arcs_st_def)

lemma count_arcs_st_none: "\<forall>a \<in> set refs. \<not> is_arc h a \<Longrightarrow> count_arcs_st h refs = 0"
  by (induction refs) (auto simp: count_arcs_st_def)

lemma fixArc_st_drop:
  assumes "i < length p"
  shows "\<exists>new. drop (Suc i) (fst (fixArc_st h p i)) = new @ drop (Suc i) p \<and>
               (\<forall>a \<in> set new. \<not> is_arc (snd (fixArc_st h p i)) a)"
proof (cases "7 < cell_len (fetch h (p ! i))")
  case False
  then have "fixArc_st h p i = (p, h)" by (simp add: fixArc_st_def)
  then show ?thesis by (intro exI[of _ "[]"]) simp
next
  case True
  then obtain sg where sg: "fetch h (p ! i) = Cell sg" by (cases "fetch h (p ! i)") auto
  let ?cs = "map (Seg (Abs CC)) (chunks6 (args sg))"
  let ?h0 = "h[p ! i := Spliced]"
  let ?refs = "[length ?h0 ..< length ?h0 + length ?cs]"
  have eq: "fixArc_st h p i = (take i p @ ?refs @ drop (Suc i) p, ?h0 @ map Cell ?cs)"
    using True sg assms by (simp add: fixArc_st_def alloc_all_eq)
  from True sg have "args sg \<noteq> []" by (auto simp: seglen_def)
  then have "chunks6 (args sg) \<noteq> []" by (rule chunks6_ne)
  then have "?refs \<noteq> []" by simp
  then obtain r rs where rs: "?refs = r # rs" by (cases ?refs) auto
  have "length (take i p @ [r]) = Suc i" using assms by simp
  then have d: "drop (Suc i) ((take i p @ [r]) @ rs @ drop (Suc i) p) = rs @ drop (Suc i) p"
    by (metis append_eq_conv_conj)
  have "\<forall>a \<in> set ?refs. \<not> is_arc (?h0 @ map Cell ?cs) a"
    by (auto simp: is_arc_def fetch_append)
  then have "\<forall>a \<in> set rs. \<not> is_arc (?h0 @ map Cell ?cs) a" unfolding rs by simp
  with d show ?thesis unfolding eq rs by (intro exI[of _ rs]) simp
qed

lemma arc_step_st_measure:
  assumes "i < length (absRefs st)" "is_arc h (absRefs st ! i)"
  shows "count_arcs_st (snd (arc_step_st env i h st)) (drop (Suc i) (absRefs (fst (arc_step_st env i h st))))
         < count_arcs_st h (drop i (absRefs st))"
proof -
  let ?n = "normRefs st ! i"
  let ?s1 = "segmentToCubic_st env h ?n (prmR st)"
  let ?h1 = "snd ?s1"
  let ?s2 = "segmentToCubic_st env ?h1 ?n (snd (fst ?s1))"
  let ?h2 = "snd ?s2"
  let ?q = "(absRefs st)[i := fst (fst ?s2)]"
  let ?f3 = "fixArc_st ?h2 ?q i"
  let ?h3 = "snd ?f3"
  let ?s4 = "segmentToCubic_st env ?h3 ?n (snd (fst ?s2))"
  let ?h4 = "snd ?s4"
  let ?f5 = "fixArc_st ?h4 ((normRefs st)[i := fst (fst ?s4)]) i"
  let ?h5 = "snd ?f5"
  have res: "absRefs (fst (arc_step_st env i h st)) = fst ?f3"
    "snd (arc_step_st env i h st) = ?h5"
    by (simp_all add: arc_step_st_def Let_def split_def)
  have le02: "arcs_le h ?h2"
    using segmentToCubic_st_arcs arcs_le_trans by blast
  have le23: "arcs_le ?h2 ?h3" by (rule fixArc_st_arcs)
  have le35: "arcs_le ?h3 ?h5"
    using segmentToCubic_st_arcs fixArc_st_arcs arcs_le_trans by blast
  have le05: "arcs_le h ?h5" using le02 le23 le35 arcs_le_trans by blast
  have iq: "i < length ?q" using assms(1) by simp
  from fixArc_st_drop[OF iq, of ?h2] obtain new where
    new: "drop (Suc i) (fst ?f3) = new @ drop (Suc i) ?q" "\<forall>a \<in> set new. \<not> is_arc ?h3 a"
    by blast
  from new(2) le35 have "\<forall>a \<in> set new. \<not> is_arc ?h5 a" by (auto simp: arcs_le_def)
  then have "count_arcs_st ?h5 new = 0" by (rule count_arcs_st_none)
  moreover have "drop (Suc i) ?q = drop (Suc i) (absRefs st)" by simp
  ultimately have "count_arcs_st ?h5 (drop (Suc i) (fst ?f3)) = count_arcs_st ?h5 (drop (Suc i) (absRefs st))"
    by (simp add: new(1) count_arcs_st_append)
  also have "\<dots> \<le> count_arcs_st h (drop (Suc i) (absRefs st))"
    using le05 by (rule count_arcs_st_mono)
  also have "\<dots> < count_arcs_st h (drop i (absRefs st))"
    using assms by (simp add: count_arcs_st_def Cons_nth_drop_Suc[symmetric])
  finally show ?thesis unfolding res .
qed

function loop1_st :: "'m env \<Rightarrow> nat \<Rightarrow> store \<Rightarrow> loop_refs \<Rightarrow> (error + loop_refs) \<times> store" where
  "loop1_st env i h st =
     (if i < iiR st
      then (case fst (loop_body_st env i h st) of
              Inl e \<Rightarrow> (Inl e, snd (loop_body_st env i h st))
            | Inr st' \<Rightarrow> loop1_st env (i + 1) (snd (loop_body_st env i h st)) st')
      else (Inr st, h))"
  by pat_completeness auto
termination
proof (relation "measures [\<lambda>(env, i, h, st). count_arcs_st h (drop i (absRefs st)),
                           \<lambda>(env, i, h, st). iiR st - i]")
  show "wf (measures [\<lambda>(env, i, h, st). count_arcs_st h (drop i (absRefs st)),
                      \<lambda>(env :: 'm env, i, h, st). iiR st - i])"
    by simp
next
  fix env :: "'m env" and i h st st'
  assume lt: "i < iiR st" and b: "fst (loop_body_st env i h st) = Inr st'"
  define h' where "h' = snd (loop_body_st env i h st)"
  from b have inr: "i < length (absRefs st)"
    by (auto simp: loop_body_st_def split: if_splits)
  have "((env, i + 1, h', st'), (env, i, h, st)) \<in>
        measures [\<lambda>(env, i, h, st). count_arcs_st h (drop i (absRefs st)),
                  \<lambda>(env, i, h, st). iiR st - i]"
  proof (cases "is_arc h (absRefs st ! i)")
    case True
    then have "absRefs st' = absRefs (fst (arc_step_st env i h st))"
      "h' = snd (arc_step_st env i h st)"
      using b inr unfolding h'_def
      by (auto simp: loop_body_st_def Let_def split_def is_arc_def split: if_splits)
    then show ?thesis using arc_step_st_measure[OF inr True, of env] by simp
  next
    case False
    then have "absRefs st' = absRefs st" "iiR st' = iiR st" "h' = h"
      using b inr unfolding h'_def
      by (auto simp: loop_body_st_def Let_def split_def is_arc_def split: if_splits)
    then show ?thesis using lt False inr
      by (auto simp: count_arcs_st_def Cons_nth_drop_Suc[symmetric])
  qed
  then show "((env, i + 1, snd (loop_body_st env i h st), st'), (env, i, h, st)) \<in>
        measures [\<lambda>(env, i, h, st). count_arcs_st h (drop i (absRefs st)),
                  \<lambda>(env, i, h, st). iiR st - i]"
    unfolding h'_def .
qed

declare loop1_st.simps [simp del]

text \<open>
  The second phase on the store. A rebuilt line is a new array. Any other segment is
  written in place (lines 136 to 140): the cell of the reference \<open>s\<close> receives the
  projected parameters, and the same reference is returned.
\<close>

definition project_seg_st ::
  "(jsnum \<times> jsnum \<Rightarrow> jsnum \<times> jsnum) \<Rightarrow> jsnum \<times> jsnum \<Rightarrow> store \<Rightarrow> refTransform
     \<Rightarrow> (addr \<times> (jsnum \<times> jsnum)) \<times> store" where
  "project_seg_st pr xy h sg =
     (let pathCommand = ref_c sg; segment = ref_s sg; (x, y) = xy
      in if pathCommand = Some (Abs CL) \<or> pathCommand = Some (Abs CH) \<or>
            pathCommand = Some (Abs CV)
         then
           let (lx, ly) = pr (ref_x sg, ref_y sg)
           in if \<not> strict_eq x lx \<and> \<not> strict_eq y ly
              then (let (r, h') = alloc h (Seg (Abs CL) [lx, ly]) in ((r, (lx, ly)), h'))
              else if strict_eq y ly
              then (let (r, h') = alloc h (Seg (Abs CH) [lx]) in ((r, (lx, ly)), h'))
              else if strict_eq x lx
              then (let (r, h') = alloc h (Seg (Abs CV) [ly]) in ((r, (lx, ly)), h'))
              else ((segment, (lx, ly)), h)
         else
           (case fetch h segment of
              Spliced \<Rightarrow> ((segment, (x, y)), h)
            | Cell s \<Rightarrow>
                (let (vs, xy') = project_args pr (args s) (x, y)
                 in ((segment, xy'), h[segment := Cell (Seg (cmd s) vs)]))))"

fun project_all_st ::
  "(jsnum \<times> jsnum \<Rightarrow> jsnum \<times> jsnum) \<Rightarrow> jsnum \<times> jsnum \<Rightarrow> store \<Rightarrow> refTransform list
     \<Rightarrow> addr list \<times> store" where
  "project_all_st pr xy h [] = ([], h)"
| "project_all_st pr xy h (sg # rest) =
     (let ((r, xy'), h1) = project_seg_st pr xy h sg;
          (rs, h2) = project_all_st pr xy' h1 rest
      in (r # rs, h2))"

definition applyMatrix_st ::
  "'m env \<Rightarrow> store \<Rightarrow> addr list \<Rightarrow> addr list \<Rightarrow> 'm option \<Rightarrow> jsnum \<times> jsnum \<times> jsnum
     \<Rightarrow> (error + addr list) \<times> store" where
  "applyMatrix_st env h absR normR matrixInstance orig =
     (case matrixInstance of
        None \<Rightarrow> (Inl InvalidMatrixInstance, h)
      | Some m \<Rightarrow>
          if \<not> isIdentity env m
          then
            (case loop1_st env 0 h \<lparr>absRefs = absR, normRefs = normR, prmR = paramsParser env,
                                    transformedRefs = [], iiR = length absR\<rparr> of
               (Inl e, h') \<Rightarrow> (Inl e, h')
             | (Inr st, h') \<Rightarrow>
                 (let (rs, h'') = project_all_st (\<lambda>pt. projection2d env m pt orig)
                                    (Num 0, Num 0) h' (transformedRefs st)
                  in (Inr rs, h'')))
          else (Inr absR, h))"

text \<open>
  Modelled from the spec: \<open>pathToAbsolute\<close> and \<open>normalizePath\<close> on the store, of
  which only the declarations are in the sources. Each returns a new array. The
  specification allows an implementation to reuse storage, and names the structural
  predicates that short-circuit a redundant conversion: a path that is already absolute
  is not converted, and the result of \<open>pathToAbsolute\<close> is a new array of the same
  segments; any other path is rewritten into new segments. \<open>normalizePath\<close> composes
  \<open>pathToAbsolute\<close> with the expansion of the shorthands: a segment that is expanded is
  a new array, any other (an \<open>M\<close>, \<open>L\<close>, \<open>C\<close>, \<open>Q\<close>, \<open>A\<close> or \<open>Z\<close>) stays the object
  that \<open>pathToAbsolute\<close> returned. A reference of the argument that holds no segment
  is the \<open>TypeError\<close> of reading its command.
\<close>

definition read_path :: "store \<Rightarrow> addr list \<Rightarrow> path option" where
  "read_path h refs = those (map (\<lambda>a. cell_seg (fetch h a)) refs)"

definition pathToAbsolute_st :: "store \<Rightarrow> addr list \<Rightarrow> (error + addr list) \<times> store" where
  "pathToAbsolute_st h refs =
     (case read_path h refs of
        None \<Rightarrow> (Inl TypeError, h)
      | Some p \<Rightarrow>
          if list_all (\<lambda>s. is_abs (cmd s)) p then (Inr refs, h)
          else (let (rs, h') = alloc_all h (pathToAbsolute p) in (Inr rs, h')))"

fun reuse ::
  "(segment \<Rightarrow> bool) \<Rightarrow> store \<Rightarrow> addr list \<Rightarrow> path \<Rightarrow> path \<Rightarrow> addr list \<times> store" where
  "reuse keep h (a # refs) (s # old) (c # new) =
     (if keep s then (let (rs, h') = reuse keep h refs old new in (a # rs, h'))
      else (let (r, h1) = alloc h c; (rs, h2) = reuse keep h1 refs old new in (r # rs, h2)))"
| "reuse keep h [] old new = ([], h)"
| "reuse keep h refs [] new = ([], h)"
| "reuse keep h refs old [] = ([], h)"

definition normalizePath_st :: "store \<Rightarrow> addr list \<Rightarrow> (error + addr list) \<times> store" where
  "normalizePath_st h refs =
     (case pathToAbsolute_st h refs of
        (Inl e, h1) \<Rightarrow> (Inl e, h1)
      | (Inr absR, h1) \<Rightarrow>
          (case read_path h1 absR of
             None \<Rightarrow> (Inl TypeError, h1)
           | Some a \<Rightarrow> (let (rs, h2) = reuse normal h1 absR a (normalizePath a) in (Inr rs, h2))))"

text \<open>
  \<open>transformPath\<close> on the store: the caller's path is an array of references into the
  store at the time of the call. The result is the array of references returned, the
  store after the call, and the transform argument after the call: a descriptor with
  keys and without an origin is the caller's object, and \<open>Object.assign\<close> (line 55)
  writes the default origin into it.
\<close>

definition transformPath_st ::
  "'m env \<Rightarrow> store \<Rightarrow> addr list \<Rightarrow> 'm transform
     \<Rightarrow> (error + addr list) \<times> store \<times> 'm transform" where
  "transformPath_st env h pth transform =
     (case pathToAbsolute_st h pth of
        (Inl e, h1) \<Rightarrow> (Inl e, h1, transform)
      | (Inr absR, h1) \<Rightarrow>
          (case normalizePath_st h1 absR of
             (Inl e, h2) \<Rightarrow> (Inl e, h2, transform)
           | (Inr normR, h2) \<Rightarrow>
               (let zero = (Num 0, Num 0, Num 0)
                in case transform of
                     TString str \<Rightarrow>
                       (case parseMatrix env str of
                          None \<Rightarrow> (Inl MatrixSyntaxError, h2, transform)
                        | Some m \<Rightarrow>
                            (let (r, h3) = applyMatrix_st env h2 absR normR (Some m) zero
                             in (r, h3, transform)))
                   | TMatrix m \<Rightarrow>
                       (let (r, h3) = applyMatrix_st env h2 absR normR (Some m) zero
                        in (r, h3, transform))
                   | TAbsent \<Rightarrow> (Inr absR, h2, transform)
                   | TObject d \<Rightarrow>
                       if keys_count d = 0 then (Inr absR, h2, transform)
                       else
                         let d' = with_origin d;
                             m = getSVGMatrix env d';
                             orig = (case origin d' of Some og \<Rightarrow> og | None \<Rightarrow> zero);
                             (r, h3) = applyMatrix_st env h2 absR normR (Some m) orig
                         in (r, h3, TObject d'))))"

text \<open>
  \<open>kept n h h'\<close>: the store \<open>h'\<close> still begins with the first \<open>n\<close> cells of \<open>h\<close>. The
  invariant of the loop for it: every reference the loop holds is to a cell from \<open>n\<close> on.
\<close>

definition kept :: "nat \<Rightarrow> store \<Rightarrow> store \<Rightarrow> bool" where
  "kept n h h' = (length h \<le> length h' \<and> take n h' = take n h)"

definition refs_inv :: "nat \<Rightarrow> loop_refs \<Rightarrow> bool" where
  "refs_inv n st =
     ((\<forall>a \<in> set (absRefs st). n \<le> a) \<and> (\<forall>a \<in> set (normRefs st). n \<le> a) \<and>
      (\<forall>t \<in> set (transformedRefs st). n \<le> ref_s t))"

definition after_arc :: "'m env \<Rightarrow> nat \<Rightarrow> store \<Rightarrow> loop_refs \<Rightarrow> loop_refs \<times> store" where
  "after_arc env i h st =
     (if cell_cmd (fetch h (absRefs st ! i)) = Some (Abs CA) then arc_step_st env i h st
      else (st, h))"

section \<open>The grammar scanner\<close>

text \<open>
  Modelled from the spec: the scanner, of which only the declarations are in the
  sources (\<open>paramsCount\<close>, \<open>isSpace\<close>, \<open>isDigit\<close>, \<open>isDigitStart\<close>, \<open>skipSpaces\<close>,
  \<open>scanFlag\<close>, \<open>scanParam\<close>, \<open>scanSegment\<close>, \<open>finalizeSegment\<close>, \<open>parsePathString\<close>).
  The arity of a command is fixed: \<open>A\<close> 7, \<open>C\<close> 6, \<open>S\<close> and \<open>Q\<close> 4, \<open>L\<close>, \<open>M\<close> and \<open>T\<close>
  2, \<open>H\<close> and \<open>V\<close> 1, \<open>Z\<close> 0. A failure is a value: what went wrong, and the position
  in the text.
\<close>

fun paramsCount :: "letter \<Rightarrow> nat" where
  "paramsCount CA = 7"
| "paramsCount CC = 6"
| "paramsCount CS = 4"
| "paramsCount CQ = 4"
| "paramsCount CL = 2"
| "paramsCount CM = 2"
| "paramsCount CT = 2"
| "paramsCount CH = 1"
| "paramsCount CV = 1"
| "paramsCount CZ = 0"

datatype failure = BadCommandLetter | ShortParameterList | MalformedNumeral | InvalidFlag

datatype parse_error = ParseError nat failure

text \<open>
  Modelled from the spec: the characters. A command letter selects the command and
  the absolute or relative mode; separators are white space and the comma, optional and
  skipped; a number starts with a digit, a sign or the decimal point.
\<close>

definition command_of_char :: "char \<Rightarrow> command option" where
  "command_of_char c =
     map_of [(CHR ''M'', Abs CM), (CHR ''m'', Rel CM), (CHR ''L'', Abs CL), (CHR ''l'', Rel CL),
             (CHR ''H'', Abs CH), (CHR ''h'', Rel CH), (CHR ''V'', Abs CV), (CHR ''v'', Rel CV),
             (CHR ''C'', Abs CC), (CHR ''c'', Rel CC), (CHR ''S'', Abs CS), (CHR ''s'', Rel CS),
             (CHR ''Q'', Abs CQ), (CHR ''q'', Rel CQ), (CHR ''T'', Abs CT), (CHR ''t'', Rel CT),
             (CHR ''A'', Abs CA), (CHR ''a'', Rel CA), (CHR ''Z'', Abs CZ), (CHR ''z'', Rel CZ)] c"

definition isSpace :: "char \<Rightarrow> bool" where
  "isSpace c = (c \<in> set [CHR '' '', CHR 0x09, CHR 0x0A, CHR 0x0B, CHR 0x0C, CHR 0x0D])"

definition digit_of :: "char \<Rightarrow> nat option" where
  "digit_of c =
     map_of [(CHR ''0'', 0), (CHR ''1'', 1), (CHR ''2'', 2), (CHR ''3'', 3), (CHR ''4'', 4),
             (CHR ''5'', 5), (CHR ''6'', 6), (CHR ''7'', 7), (CHR ''8'', 8), (CHR ''9'', 9)] c"

definition isDigit :: "char \<Rightarrow> bool" where
  "isDigit c = (digit_of c \<noteq> None)"

definition isDigitStart :: "char \<Rightarrow> bool" where
  "isDigitStart c = (isDigit c \<or> c = CHR ''+'' \<or> c = CHR ''-'' \<or> c = CHR ''.'')"

definition skipSpaces :: "string \<Rightarrow> string" where
  "skipSpaces s = dropWhile isSpace s"

definition skipSeparator :: "string \<Rightarrow> string" where
  "skipSeparator s =
     (case skipSpaces s of
        c # r \<Rightarrow> if c = CHR '','' then skipSpaces r else c # r
      | [] \<Rightarrow> [])"

text \<open>
  Modelled from the spec: \<open>scanParam\<close> and \<open>scanFlag\<close>. A numeric literal has an optional
  sign, an integer part, a fractional part (one of the two may be missing) and an
  optional exponent. An arc flag is the single digit \<open>0\<close> or \<open>1\<close>, also when the next
  digits follow with no separator. Each returns the value and the rest of the text;
  the text is scanned from left to right and never read again.
\<close>

definition digits_value :: "string \<Rightarrow> nat" where
  "digits_value ds = foldl (\<lambda>n c. 10 * n + (case digit_of c of Some d \<Rightarrow> d | None \<Rightarrow> 0)) 0 ds"

definition scanSign :: "string \<Rightarrow> real \<times> string" where
  "scanSign s =
     (case s of
        c # r \<Rightarrow> if c = CHR ''+'' then (1, r) else if c = CHR ''-'' then (-1, r) else (1, s)
      | [] \<Rightarrow> (1, s))"

definition scanFraction :: "string \<Rightarrow> string \<times> string" where
  "scanFraction s =
     (case s of
        c # r \<Rightarrow> if c = CHR ''.'' then (takeWhile isDigit r, dropWhile isDigit r) else ([], s)
      | [] \<Rightarrow> ([], s))"

definition scanExponent :: "string \<Rightarrow> (real \<times> string) option" where
  "scanExponent s =
     (case s of
        c # r \<Rightarrow>
          if c = CHR ''e'' \<or> c = CHR ''E''
          then
            (let (sg, r1) = scanSign r; ds = takeWhile isDigit r1
             in if ds = [] then None
                else Some (if sg < 0 then 1 / 10 ^ digits_value ds else 10 ^ digits_value ds,
                           dropWhile isDigit r1))
          else Some (1, s)
      | [] \<Rightarrow> Some (1, s))"

definition scanParam :: "string \<Rightarrow> (jsnum \<times> string) option" where
  "scanParam s =
     (let (sg, s1) = scanSign s;
          ip = takeWhile isDigit s1;
          (fp, s3) = scanFraction (dropWhile isDigit s1)
      in if ip = [] \<and> fp = [] then None
         else
           (case scanExponent s3 of
              None \<Rightarrow> None
            | Some (ex, r) \<Rightarrow>
                Some (Num (sg * (real (digits_value ip) +
                                 real (digits_value fp) / 10 ^ length fp) * ex), r)))"

definition scanFlag :: "string \<Rightarrow> (jsnum \<times> string) option" where
  "scanFlag s =
     (case s of
        c # r \<Rightarrow>
          if c = CHR ''0'' then Some (Num 0, r)
          else if c = CHR ''1'' then Some (Num 1, r) else None
      | [] \<Rightarrow> None)"

text \<open>
  Modelled from the spec: the parameters of one segment, \<open>k\<close> of them still to come.
  The fourth and fifth parameter of an arc are flags. A parameter that cannot be
  scanned is a failure at the position of the cursor: a short parameter list if the
  text ends or the next command begins there, else a bad flag or a malformed numeral.
  \<open>mx\<close> is the length of the whole text.
\<close>

definition missing :: "string \<Rightarrow> failure \<Rightarrow> failure" where
  "missing s f =
     (case s of [] \<Rightarrow> ShortParameterList
      | c # r \<Rightarrow> if command_of_char c \<noteq> None then ShortParameterList else f)"

primrec scanGroup :: "nat \<Rightarrow> bool \<Rightarrow> nat \<Rightarrow> string \<Rightarrow> parse_error + (jsnum list \<times> string)" where
  "scanGroup mx arc 0 s = Inr ([], s)"
| "scanGroup mx arc (Suc k) s =
     (case (if arc \<and> (Suc k = 3 \<or> Suc k = 4) then scanFlag s else scanParam s) of
        None \<Rightarrow>
          Inl (ParseError (mx - length s)
                 (missing s (if arc \<and> (Suc k = 3 \<or> Suc k = 4) then InvalidFlag
                             else MalformedNumeral)))
      | Some (v, r) \<Rightarrow>
          (case scanGroup mx arc k (skipSeparator r) of
             Inl e \<Rightarrow> Inl e
           | Inr (vs, r') \<Rightarrow> Inr (v # vs, r')))"

text \<open>Every scanning function returns a suffix of its text; a parameter takes a character.\<close>

lemma skipSpaces_length: "length (skipSpaces s) \<le> length s"
  by (simp add: skipSpaces_def length_dropWhile_le)

lemma skipSeparator_length: "length (skipSeparator s) \<le> length s"
proof (cases "skipSpaces s")
  case Nil
  then show ?thesis by (simp add: skipSeparator_def)
next
  case (Cons c r)
  have "length (skipSpaces r) \<le> length r" by (rule skipSpaces_length)
  moreover have "length (c # r) \<le> length s" using skipSpaces_length[of s] Cons by simp
  ultimately show ?thesis using Cons by (simp add: skipSeparator_def)
qed

lemma scanSign_length: "length (snd (scanSign s)) \<le> length s"
  by (auto simp: scanSign_def split: list.splits)

lemma scanFraction_length:
  "length (fst (scanFraction s)) + length (snd (scanFraction s)) \<le> length s"
proof (cases s)
  case Nil
  then show ?thesis by (simp add: scanFraction_def)
next
  case (Cons c r)
  have "length (takeWhile isDigit r) + length (dropWhile isDigit r) = length r"
    by (metis length_append takeWhile_dropWhile_id)
  with Cons show ?thesis by (simp add: scanFraction_def)
qed

lemma scanExponent_length: "scanExponent s = Some (ex, r) \<Longrightarrow> length r \<le> length s"
proof (cases s)
  case Nil
  assume "scanExponent s = Some (ex, r)"
  with Nil show ?thesis by (simp add: scanExponent_def)
next
  case (Cons c t)
  assume a: "scanExponent s = Some (ex, r)"
  show ?thesis
  proof (cases "c = CHR ''e'' \<or> c = CHR ''E''")
    case False
    with a Cons show ?thesis by (auto simp: scanExponent_def)
  next
    case True
    with a Cons have "r = dropWhile isDigit (snd (scanSign t))"
      by (auto simp: scanExponent_def split_def Let_def split: if_splits)
    moreover have "length (dropWhile isDigit (snd (scanSign t))) \<le> length (snd (scanSign t))"
      by (rule length_dropWhile_le)
    ultimately show ?thesis using scanSign_length[of t] Cons by simp
  qed
qed

lemma scanParam_length:
  assumes "scanParam s = Some (v, r)"
  shows "length r < length s"
proof -
  let ?s1 = "snd (scanSign s)"
  let ?ip = "takeWhile isDigit ?s1"
  let ?s2 = "dropWhile isDigit ?s1"
  let ?fp = "fst (scanFraction ?s2)"
  let ?s3 = "snd (scanFraction ?s2)"
  from assms have ne: "?ip \<noteq> [] \<or> ?fp \<noteq> []"
    by (auto simp: scanParam_def split_def Let_def split: if_splits)
  from assms obtain ex where "scanExponent ?s3 = Some (ex, r)"
    by (auto simp: scanParam_def split_def Let_def split: if_splits option.splits)
  then have a: "length r \<le> length ?s3" by (rule scanExponent_length)
  have b: "length ?fp + length ?s3 \<le> length ?s2" by (rule scanFraction_length)
  have c: "length ?ip + length ?s2 = length ?s1"
    by (metis length_append takeWhile_dropWhile_id)
  have d: "length ?s1 \<le> length s" by (rule scanSign_length)
  from ne have "0 < length ?ip + length ?fp" by auto
  with a b c d show ?thesis by linarith
qed

lemma scanFlag_length: "scanFlag s = Some (v, r) \<Longrightarrow> length r < length s"
  by (auto simp: scanFlag_def split: list.splits if_splits)

lemma scanGroup_length:
  "scanGroup mx arc k s = Inr (vs, r) \<Longrightarrow>
   length r \<le> length s \<and> (0 < k \<longrightarrow> length r < length s) \<and> length vs = k"
proof (induction k arbitrary: s vs r)
  case 0
  then show ?case by simp
next
  case (Suc k)
  let ?one = "if arc \<and> (Suc k = 3 \<or> Suc k = 4) then scanFlag s else scanParam s"
  from Suc.prems obtain v r1 where one: "?one = Some (v, r1)"
    by (cases ?one) (auto simp del: One_nat_def)
  then have l1: "length r1 < length s"
    using scanFlag_length scanParam_length by (auto split: if_splits)
  from Suc.prems one obtain ws where
    rest: "scanGroup mx arc k (skipSeparator r1) = Inr (ws, r)" and vs: "vs = v # ws"
    by (auto split: sum.splits)
  from Suc.IH[OF rest] have "length r \<le> length (skipSeparator r1)" "length ws = k" by simp_all
  with l1 skipSeparator_length[of r1] vs show ?case by simp
qed

text \<open>
  Modelled from the spec: a bare numeric value following a completed segment repeats
  the previous command. The accumulator of the segment in progress receives the
  parameters of one segment after the other as long as the cursor is at the start of a
  number. A command without parameters does not repeat.
\<close>

function scanGroups :: "nat \<Rightarrow> bool \<Rightarrow> nat \<Rightarrow> string \<Rightarrow> parse_error + (jsnum list \<times> string)" where
  "scanGroups mx arc n s =
     (case scanGroup mx arc n s of
        Inl e \<Rightarrow> Inl e
      | Inr (vs, r) \<Rightarrow>
          if r = [] \<or> \<not> isDigitStart (hd r) \<or> n = 0 then Inr (vs, r)
          else (case scanGroups mx arc n r of
                  Inl e \<Rightarrow> Inl e
                | Inr (ws, r') \<Rightarrow> Inr (vs @ ws, r')))"
  by pat_completeness auto
termination
proof (relation "measure (\<lambda>(mx, arc, n, s). length s)")
  show "wf (measure (\<lambda>(mx :: nat, arc :: bool, n :: nat, s :: string). length s))" by simp
next
  fix mx arc n s x2 vs r
  assume "scanGroup mx arc n s = Inr x2" "(vs, r) = x2" "\<not> (r = [] \<or> \<not> isDigitStart (hd r) \<or> n = 0)"
  then have "scanGroup mx arc n s = Inr (vs, r)" "0 < n" by simp_all
  from scanGroup_length[OF this(1)] this(2)
  show "((mx, arc, n, r), (mx, arc, n, s)) \<in> measure (\<lambda>(mx, arc, n, s). length s)"
    by simp
qed

declare scanGroups.simps [simp del]

text \<open>
  Modelled from the spec: \<open>finalizeSegment\<close> appends the accumulator to the output, one
  segment for every full list of parameters: the first with the command scanned, the
  repetitions with the same command, those of \<open>M\<close> as \<open>L\<close> (of \<open>m\<close> as \<open>l\<close>).
\<close>

fun repeated :: "command \<Rightarrow> command" where
  "repeated (Abs CM) = Abs CL"
| "repeated (Rel CM) = Rel CL"
| "repeated c = c"

function finalizeSegment :: "command \<Rightarrow> jsnum list \<Rightarrow> path" where
  "finalizeSegment c ds =
     (let n = paramsCount (letter_of c)
      in if length ds < n then []
         else if n = 0 then [Seg c []]
         else Seg c (take n ds) # finalizeSegment (repeated c) (drop n ds))"
  by pat_completeness auto
termination
  by (relation "measure (\<lambda>(c, ds). length ds)") auto

declare finalizeSegment.simps [simp del]

text \<open>
  Modelled from the spec: \<open>scanSegment\<close> reads a command letter and its parameters up
  to the next command letter, the end of the text or a grammar violation, and finalizes
  the segment; \<open>parsePathString\<close> scans segments to the end of the text, and returns the
  path or the first failure.
\<close>

definition scanSegment :: "nat \<Rightarrow> string \<Rightarrow> parse_error + (path \<times> string)" where
  "scanSegment mx s =
     (case s of
        [] \<Rightarrow> Inl (ParseError mx BadCommandLetter)
      | c # r \<Rightarrow>
          (case command_of_char c of
             None \<Rightarrow> Inl (ParseError (mx - length s) BadCommandLetter)
           | Some k \<Rightarrow>
               if paramsCount (letter_of k) = 0 then Inr (finalizeSegment k [], skipSpaces r)
               else
                 (case scanGroups mx (letter_of k = CA) (paramsCount (letter_of k))
                         (skipSpaces r) of
                    Inl e \<Rightarrow> Inl e
                  | Inr (ds, r') \<Rightarrow> Inr (finalizeSegment k ds, r'))))"

lemma scanGroups_length: "scanGroups mx arc n s = Inr (vs, r) \<Longrightarrow> length r \<le> length s"
proof (induction mx arc n s arbitrary: vs r rule: scanGroups.induct)
  case (1 mx arc n s)
  from "1.prems" obtain ws r1 where g: "scanGroup mx arc n s = Inr (ws, r1)"
    by (cases "scanGroup mx arc n s") (auto simp: scanGroups.simps[of mx arc n s])
  then have l: "length r1 \<le> length s" using scanGroup_length by blast
  show ?case
  proof (cases "r1 = [] \<or> \<not> isDigitStart (hd r1) \<or> n = 0")
    case True
    with "1.prems" g l show ?thesis by (simp add: scanGroups.simps[of mx arc n s])
  next
    case False
    with "1.prems" g obtain us where "scanGroups mx arc n r1 = Inr (us, r)"
      by (auto simp: scanGroups.simps[of mx arc n s] split: sum.splits)
    from "1.IH"[OF g refl False this] l show ?thesis by simp
  qed
qed

lemma scanSegment_length: "scanSegment mx s = Inr (segs, r) \<Longrightarrow> length r < length s"
proof (cases s)
  case Nil
  assume "scanSegment mx s = Inr (segs, r)"
  with Nil show ?thesis by (simp add: scanSegment_def)
next
  case (Cons c t)
  assume a: "scanSegment mx s = Inr (segs, r)"
  then obtain k where k: "command_of_char c = Some k"
    using Cons by (cases "command_of_char c") (auto simp: scanSegment_def)
  show ?thesis
  proof (cases "paramsCount (letter_of k) = 0")
    case True
    with a Cons k have "r = skipSpaces t" by (simp add: scanSegment_def)
    with skipSpaces_length[of t] Cons show ?thesis by simp
  next
    case False
    with a Cons k obtain ds where
      "scanGroups mx (letter_of k = CA) (paramsCount (letter_of k)) (skipSpaces t) = Inr (ds, r)"
      by (auto simp: scanSegment_def split: sum.splits)
    then have "length r \<le> length (skipSpaces t)" by (rule scanGroups_length)
    with skipSpaces_length[of t] Cons show ?thesis by simp
  qed
qed

function scanAll :: "nat \<Rightarrow> string \<Rightarrow> path \<Rightarrow> parse_error + path" where
  "scanAll mx s acc =
     (if s = [] then Inr acc
      else (case scanSegment mx s of
              Inl e \<Rightarrow> Inl e
            | Inr (segs, r) \<Rightarrow> scanAll mx r (acc @ segs)))"
  by pat_completeness auto
termination
proof (relation "measure (\<lambda>(mx, s, acc). length s)")
  show "wf (measure (\<lambda>(mx :: nat, s :: string, acc :: path). length s))" by simp
next
  fix mx s acc x2 segs r
  assume "s \<noteq> []" "scanSegment mx s = Inr x2" "(segs, r) = x2"
  then have "scanSegment mx s = Inr (segs, r)" by simp
  then have "length r < length s" by (rule scanSegment_length)
  then show "((mx, r, acc @ segs), (mx, s, acc)) \<in> measure (\<lambda>(mx, s, acc). length s)"
    by simp
qed

declare scanAll.simps [simp del]

definition parsePathString :: "string \<Rightarrow> parse_error + path" where
  "parsePathString s = scanAll (length s) (skipSpaces s) []"

definition arity_ok :: "segment \<Rightarrow> bool" where
  "arity_ok sg = (length (args sg) = paramsCount (letter_of (cmd sg)))"

text \<open>The text \<open>m1 2 3 4a1 1 0 015-.5e1Z\<close>.\<close>

definition sample_text :: string where
  "sample_text = ''m1 2 3 4a1 1 0 015-.5e1Z''"

lemmas scan_simps =
  parsePathString_def scanAll.simps scanSegment_def scanGroups.simps finalizeSegment.simps
  skipSpaces_def skipSeparator_def isSpace_def isDigit_def isDigitStart_def digit_of_def
  digits_value_def scanSign_def scanFraction_def scanExponent_def scanParam_def scanFlag_def
  missing_def command_of_char_def Let_def eval_nat_numeral

section \<open>A concrete environment\<close>

text \<open>
  For evaluation at concrete inputs: matrices are uniform scalings about the origin,
  a matrix being its factor. The projection of a point is then its multiple, as
  \<open>projection2d\<close> gives for a scaling matrix and the origin \<open>[0,0,0]\<close>.
\<close>

definition scale_env :: "real env" where
  "scale_env =
     \<lparr>parseMatrix = (\<lambda>str. if str = ''scale(2)'' then Some 2
                           else if str = [] then Some 1 else None),
      getSVGMatrix = (\<lambda>d. case scale d of Some (Scalar (Num k)) \<Rightarrow> k | _ \<Rightarrow> 1),
      isIdentity = (\<lambda>k. k = 1),
      projection2d = (\<lambda>k (u, v) og. (nscale k u, nscale k v)),
      arcToCubic = (\<lambda>vs. vs @ drop 6 vs),
      paramsParser = \<lparr>x1 = Num 0, y1 = Num 0, x2 = Num 0, y2 = Num 0, px = Num 0, py = Num 0\<rparr>\<rparr>"

text \<open>The path \<open>M0,0 L10,0 L10,10 Z L10,20\<close>.\<close>

definition square_path :: path where
  "square_path =
     [Seg (Abs CM) [Num 0, Num 0], Seg (Abs CL) [Num 10, Num 0],
      Seg (Abs CL) [Num 10, Num 10], Seg (Abs CZ) [], Seg (Abs CL) [Num 10, Num 20]]"

text \<open>The path \<open>M0,0 a1,1 0 0 1 5,5 h3\<close>.\<close>

definition arc_path :: path where
  "arc_path =
     [Seg (Abs CM) [Num 0, Num 0],
      Seg (Rel CA) [Num 1, Num 1, Num 0, Num 0, Num 1, Num 5, Num 5], Seg (Rel CH) [Num 3]]"

definition no_keys :: descriptor where
  "no_keys = \<lparr>translate = None, rotate = None, scale = None, skew = None, matrix = None,
              origin = None\<rparr>"

text \<open>The descriptors \<open>{origin: [0,0,0]}\<close> and \<open>{scale: 2}\<close>.\<close>

definition origin_only :: descriptor where
  "origin_only = no_keys\<lparr>origin := Some defaultOrigin\<rparr>"

definition scale_two :: descriptor where
  "scale_two = no_keys\<lparr>scale := Some (Scalar (Num 2))\<rparr>"

text \<open>
  The store that holds the segments of the absolute path \<open>M1,2 L3,4\<close> at the addresses
  0 and 1.
\<close>

definition line_store :: store where
  "line_store = [Cell (Seg (Abs CM) [Num 1, Num 2]), Cell (Seg (Abs CL) [Num 3, Num 4])]"

text \<open>
  An environment whose arc conversion is the chord of the arc as one cubic, and the
  path \<open>M0,0 h3 a1,1 0 0 1 0,3 t-3,-3 z\<close>.
\<close>

definition chord_env :: "real env" where
  "chord_env = scale_env\<lparr>arcToCubic :=
     (\<lambda>vs. lineToCubic (num_at (Seg (Abs CA) vs) 1) (num_at (Seg (Abs CA) vs) 2)
             (fst (end_point (Seg (Abs CA) (drop 2 vs))))
             (snd (end_point (Seg (Abs CA) (drop 2 vs)))))\<rparr>"

definition mixed_path :: path where
  "mixed_path =
     [Seg (Abs CM) [Num 0, Num 0], Seg (Rel CH) [Num 3],
      Seg (Rel CA) [Num 1, Num 1, Num 0, Num 0, Num 1, Num 0, Num 3],
      Seg (Rel CT) [Num (-3), Num (-3)], Seg (Rel CZ) []]"

lemmas eval_simps =
  transformPath_def applyMatrix_def scale_env_def pathToAbsolute_def normalizePath_def
  origin_cursor_def advance_def normalizeSegment_def nadvance_def loop_body_def num_at_def
  seglen_def js_or_def project_seg_def arc_step_def segmentToCubic_def fixArc_def
  with_origin_def keys_count_def defaultOrigin_def no_keys_def Let_def loop1.simps

lemmas eval_st_simps =
  transformPath_st_def pathToAbsolute_st_def normalizePath_st_def read_path_def
  applyMatrix_st_def project_seg_st_def loop_body_st_def arc_step_st_def fixArc_st_def
  segmentToCubic_st_def alloc_def fetch_def line_store_def normal_def loop1_st.simps

section \<open>Properties of transformPath\<close>

subsection \<open>The loop\<close>

lemma loop_body_error: "loop_body env i st = Inl e \<Longrightarrow> e = TypeError"
  by (auto simp: loop_body_def Let_def split: if_splits)

lemma loop1_error: "loop1 env i st = Inl e \<Longrightarrow> e = TypeError"
proof (induction env i st rule: loop1.induct)
  case (1 env i st)
  show ?case
  proof (cases "i < ii st")
    case False
    with "1.prems" show ?thesis by (simp add: loop1.simps[of env i st])
  next
    case True
    show ?thesis
    proof (cases "loop_body env i st")
      case (Inl e')
      with True "1.prems" have "e = e'" by (simp add: loop1.simps[of env i st])
      with Inl show ?thesis by (simp add: loop_body_error)
    next
      case (Inr st')
      with True "1.prems" have "loop1 env (i + 1) st' = Inl e"
        by (simp add: loop1.simps[of env i st])
      with "1.IH"[OF True Inr] show ?thesis .
    qed
  qed
qed

lemma applyMatrix_error: "applyMatrix env a n (Some m) og = Inl e \<Longrightarrow> e = TypeError"
  by (auto simp: applyMatrix_def split: if_splits sum.splits dest: loop1_error)

lemma absoluteSegment_abs: "is_abs (cmd (absoluteSegment x y s))"
  by (cases s; cases "cmd s") auto

lemma toAbsolute_from_abs: "s \<in> set (toAbsolute_from c p) \<Longrightarrow> is_abs (cmd s)"
  by (induction p arbitrary: c) (auto simp: Let_def absoluteSegment_abs)

lemma pathToAbsolute_abs: "s \<in> set (pathToAbsolute p) \<Longrightarrow> is_abs (cmd s)"
  by (simp add: pathToAbsolute_def toAbsolute_from_abs)

lemma normalize_from_length: "length (normalize_from st p) = length p"
  by (induction p arbitrary: st) (auto simp: Let_def)

lemma toAbsolute_from_length: "length (toAbsolute_from c p) = length p"
  by (induction p arbitrary: c) (auto simp: Let_def)

lemma normalizePath_length: "length (normalizePath p) = length p"
  by (simp add: normalizePath_def normalize_from_length pathToAbsolute_def toAbsolute_from_length)

lemma segmentToCubic_x1 [simp]:
  "x1 (snd (segmentToCubic env sg ps)) = x1 ps" "y1 (snd (segmentToCubic env sg ps)) = y1 ps"
  by (auto simp: segmentToCubic_def split: command.splits letter.splits)

lemma segmentToCubic_fst:
  "x1 ps = x1 ps' \<Longrightarrow> y1 ps = y1 ps' \<Longrightarrow>
   fst (segmentToCubic env sg ps) = fst (segmentToCubic env sg ps')"
  by (auto simp: segmentToCubic_def split: command.splits letter.splits)

lemma arc_step_paths:
  "absolutePath (arc_step env i st) = fixArc ((absolutePath st)[i := arc_cubic env i st]) i"
  "normalizedPath (arc_step env i st) = fixArc ((normalizedPath st)[i := arc_cubic env i st]) i"
  "transformedPath (arc_step env i st) = transformedPath st"
  "ii (arc_step env i st) =
     max (length (absolutePath (arc_step env i st))) (length (normalizedPath (arc_step env i st)))"
proof -
  let ?n = "normalizedPath st ! i"
  let ?p1 = "snd (segmentToCubic env ?n (prm st))"
  let ?p2 = "snd (segmentToCubic env ?n ?p1)"
  have a: "fst (segmentToCubic env ?n ?p1) = arc_cubic env i st"
    unfolding arc_cubic_def by (rule segmentToCubic_fst) simp_all
  have b: "fst (segmentToCubic env ?n ?p2) = arc_cubic env i st"
    unfolding arc_cubic_def by (rule segmentToCubic_fst) simp_all
  show "absolutePath (arc_step env i st) = fixArc ((absolutePath st)[i := arc_cubic env i st]) i"
    using a by (simp add: arc_step_def Let_def split_def)
  show "normalizedPath (arc_step env i st) = fixArc ((normalizedPath st)[i := arc_cubic env i st]) i"
    using b by (simp add: arc_step_def Let_def split_def)
  show "transformedPath (arc_step env i st) = transformedPath st"
    by (simp add: arc_step_def Let_def split_def)
  show "ii (arc_step env i st) =
     max (length (absolutePath (arc_step env i st))) (length (normalizedPath (arc_step env i st)))"
    by (simp add: arc_step_def Let_def split_def)
qed

lemma arc_cubic_not_arc: "cmd (arc_cubic env i st) \<noteq> Abs CA"
  by (simp add: arc_cubic_def segmentToCubic_not_arc)

text \<open>What one iteration does to the two arrays.\<close>

lemma loop_body_paths:
  assumes "loop_body env i st = Inr st'"
  shows "i < length (absolutePath st) \<and> i < length (normalizedPath st) \<and>
         (if cmd (absolutePath st ! i) = Abs CA
          then absolutePath st' = fixArc ((absolutePath st)[i := arc_cubic env i st]) i \<and>
               normalizedPath st' = fixArc ((normalizedPath st)[i := arc_cubic env i st]) i \<and>
               ii st' = max (length (absolutePath st')) (length (normalizedPath st'))
          else absolutePath st' = absolutePath st \<and> normalizedPath st' = normalizedPath st \<and>
               ii st' = ii st)"
  using assms by (auto simp: loop_body_def Let_def arc_step_paths split: if_splits)

lemma loop_body_len_inv:
  assumes "len_inv st" "loop_body env i st = Inr st'"
  shows "len_inv st'"
proof (cases "cmd (absolutePath st ! i) = Abs CA")
  case False
  with loop_body_paths[OF assms(2)] assms(1) show ?thesis by (simp add: len_inv_def)
next
  case True
  let ?c = "arc_cubic env i st"
  from loop_body_paths[OF assms(2)] True
  have a: "absolutePath st' = fixArc ((absolutePath st)[i := ?c]) i"
    and n: "normalizedPath st' = fixArc ((normalizedPath st)[i := ?c]) i"
    and m: "ii st' = max (length (absolutePath st')) (length (normalizedPath st'))"
    and i: "i < length (absolutePath st)" "i < length (normalizedPath st)"
    by simp_all
  have "length (absolutePath st') = length (normalizedPath st')"
    using assms(1) i by (simp add: a n fixArc_length len_inv_def)
  with m show ?thesis by (simp add: len_inv_def)
qed

lemma loop_body_defined:
  "len_inv st \<Longrightarrow> i < ii st \<Longrightarrow> \<exists>st'. loop_body env i st = Inr st'"
  by (auto simp: len_inv_def loop_body_def Let_def)

lemma split_cubic_ne: "split_cubic c \<noteq> []"
proof (cases "7 < seglen c")
  case False
  then show ?thesis by (simp add: split_cubic_def)
next
  case True
  then have "args c \<noteq> []" by (auto simp: seglen_def)
  then have "chunks6 (args c) \<noteq> []" by (rule chunks6_ne)
  with True show ?thesis by (simp add: split_cubic_def)
qed

lemma split_cubic_cmd: "cmd c = Abs CC \<Longrightarrow> s \<in> set (split_cubic c) \<Longrightarrow> cmd s = Abs CC"
  by (auto simp: split_cubic_def split: if_splits)

text \<open>The first loop computes the pairs of \<open>arcs_to_cubics\<close>.\<close>

lemma fixArc_update:
  assumes "i < length p"
  shows "fixArc (p[i := c]) i = take i p @ split_cubic c @ drop (Suc i) p"
proof -
  have "(p[i := c]) ! i = c" "take i (p[i := c]) = take i p"
    "drop (Suc i) (p[i := c]) = drop (Suc i) p" "i < length (p[i := c])"
    using assms by simp_all
  moreover have "p[i := c] = take i p @ [c] @ drop (Suc i) p"
    using assms by (simp add: upd_conv_take_nth_drop)
  ultimately show ?thesis by (simp add: fixArc_def split_cubic_def)
qed

lemma split_cubic_not_arc: "cmd c \<noteq> Abs CA \<Longrightarrow> s \<in> set (split_cubic c) \<Longrightarrow> cmd s \<noteq> Abs CA"
  by (auto simp: split_cubic_def split: if_splits)

lemma arcs_to_cubics_prefix:
  "\<forall>c \<in> set cs. cmd c \<noteq> Abs CA \<Longrightarrow>
   arcs_to_cubics env xy (cs @ as) (cs @ ns) =
     map (\<lambda>c. (c, c)) cs @ arcs_to_cubics env (if cs = [] then xy else end_point (last cs)) as ns"
  by (induction cs arbitrary: xy) auto

lemma loop_body_entry:
  assumes "loop_body env i st = Inr st'"
  shows "transformedPath st' =
           transformedPath st @ [entry_of (absolutePath st' ! i, normalizedPath st' ! i)]"
    and "x1 (prm st') = fst (end_point (normalizedPath st' ! i))"
    and "y1 (prm st') = snd (end_point (normalizedPath st' ! i))"
  using assms
  by (auto simp: loop_body_def Let_def entry_of_def end_point_def arc_step_paths(3)
      split: if_splits)

lemma loop1_result:
  "len_inv st \<Longrightarrow>
   \<exists>st'. loop1 env i st = Inr st' \<and>
     transformedPath st' = transformedPath st @
       map entry_of (arcs_to_cubics env (x1 (prm st), y1 (prm st))
         (drop i (absolutePath st)) (drop i (normalizedPath st)))"
proof (induction env i st rule: loop1.induct)
  case (1 env i st)
  from "1.prems" have len: "length (absolutePath st) = length (normalizedPath st)"
    "ii st = length (absolutePath st)" by (simp_all add: len_inv_def)
  show ?case
  proof (cases "i < ii st")
    case False
    with len show ?thesis by (simp add: loop1.simps[of env i st])
  next
    case True
    then obtain s1 where s1: "loop_body env i st = Inr s1"
      using loop_body_defined[OF "1.prems"] by blast
    have inv1: "len_inv s1" using "1.prems" s1 by (rule loop_body_len_inv)
    from "1.IH"[OF True s1 inv1] obtain st' where
      st': "loop1 env (i + 1) s1 = Inr st'"
      and tp: "transformedPath st' = transformedPath s1 @
         map entry_of (arcs_to_cubics env (x1 (prm s1), y1 (prm s1))
           (drop (i + 1) (absolutePath s1)) (drop (i + 1) (normalizedPath s1)))"
      by blast
    have run: "loop1 env i st = Inr st'"
      using True s1 st' by (simp add: loop1.simps[of env i st])
    note e = loop_body_entry[OF s1]
    note p = loop_body_paths[OF s1]
    from True len have ia: "i < length (absolutePath st)" and "i < length (normalizedPath st)"
      by simp_all
    then have da: "drop i (absolutePath st) = absolutePath st ! i # drop (Suc i) (absolutePath st)"
      and dn: "drop i (normalizedPath st) = normalizedPath st ! i # drop (Suc i) (normalizedPath st)"
      by (simp_all add: Cons_nth_drop_Suc)
    let ?a = "absolutePath st ! i" and ?n = "normalizedPath st ! i"
    have "transformedPath s1 @
         map entry_of (arcs_to_cubics env (x1 (prm s1), y1 (prm s1))
           (drop (i + 1) (absolutePath s1)) (drop (i + 1) (normalizedPath s1)))
       = transformedPath st @ map entry_of (arcs_to_cubics env (x1 (prm st), y1 (prm st))
           (drop i (absolutePath st)) (drop i (normalizedPath st)))"
    proof (cases "cmd ?a = Abs CA")
      case False
      with p have same: "absolutePath s1 = absolutePath st" "normalizedPath s1 = normalizedPath st"
        by simp_all
      show ?thesis
        unfolding da dn using False e by (simp add: same)
    next
      case arc: True
      let ?c = "arc_cubic env i st"
      let ?cs = "split_cubic ?c"
      from arc p ia \<open>i < length (normalizedPath st)\<close>
      have a1: "absolutePath s1 = take i (absolutePath st) @ ?cs @ drop (Suc i) (absolutePath st)"
        and n1: "normalizedPath s1 = take i (normalizedPath st) @ ?cs @ drop (Suc i) (normalizedPath st)"
        by (simp_all add: fixArc_update)
      obtain c0 cs' where cs: "?cs = c0 # cs'"
        using split_cubic_ne[of ?c] by (cases ?cs) auto
      have li: "length (take i (absolutePath st)) = i" "length (take i (normalizedPath st)) = i"
        using ia \<open>i < length (normalizedPath st)\<close> by simp_all
      have ai: "absolutePath s1 ! i = c0" "normalizedPath s1 ! i = c0"
        unfolding a1 n1 cs using li by (simp_all add: nth_append)
      have d1: "drop (i + 1) (absolutePath s1) = cs' @ drop (Suc i) (absolutePath st)"
        "drop (i + 1) (normalizedPath s1) = cs' @ drop (Suc i) (normalizedPath st)"
        unfolding a1 n1 cs using li by simp_all
      have na: "\<forall>c \<in> set cs'. cmd c \<noteq> Abs CA"
        using split_cubic_not_arc[OF arc_cubic_not_arc, of _ env i st] cs by auto
      have sc: "fst (segmentToCubic env ?n (params_at env (x1 (prm st), y1 (prm st)))) = ?c"
        unfolding arc_cubic_def by (rule segmentToCubic_fst) (simp_all add: params_at_def)
      have lst: "end_point (last ?cs) = (if cs' = [] then end_point c0 else end_point (last cs'))"
        by (simp add: cs)
      show ?thesis
        unfolding da dn d1 using arc e na
        by (simp add: ai arcs_to_cubics_prefix sc Let_def cs)
    qed
    with run tp show ?thesis by simp
  qed
qed

lemma project_seg_cmd:
  "cmd (fst (project_seg pr xy t)) \<in> {Abs CL, Abs CH, Abs CV, cmd (seg_s t)}"
  by (auto simp: project_seg_def Let_def split_def)

lemma project_all_cmd:
  "s \<in> set (project_all pr xy ts) \<Longrightarrow>
   cmd s \<in> {Abs CL, Abs CH, Abs CV} \<or> (\<exists>t \<in> set ts. cmd s = cmd (seg_s t))"
proof (induction ts arbitrary: xy)
  case Nil
  then show ?case by simp
next
  case (Cons t ts)
  from Cons.prems have "s = fst (project_seg pr xy t) \<or>
      s \<in> set (project_all pr (snd (project_seg pr xy t)) ts)"
    by (simp add: split_def Let_def)
  then show ?case
  proof
    assume "s = fst (project_seg pr xy t)"
    with project_seg_cmd[of pr xy t] show ?thesis by auto
  next
    assume "s \<in> set (project_all pr (snd (project_seg pr xy t)) ts)"
    from Cons.IH[OF this] show ?thesis by auto
  qed
qed

lemma transformPath_matrix_of:
  "matrix_of env transform = Some m \<Longrightarrow>
   transformPath env pth transform =
     applyMatrix env (pathToAbsolute pth) (normalizePath (pathToAbsolute pth)) (Some m)
       (origin_of transform)"
  by (auto simp: matrix_of_def transformPath_def origin_of_def Let_def
      split: transform.splits if_splits)

lemma transformPath_no_matrix:
  "matrix_of env transform = None \<Longrightarrow>
   transformPath env pth transform =
     (case transform of TString str \<Rightarrow> Inl MatrixSyntaxError | _ \<Rightarrow> Inr (pathToAbsolute pth))"
  by (auto simp: matrix_of_def transformPath_def Let_def split: transform.splits if_splits)

lemma absoluteSegment_id: "is_abs (cmd s) \<Longrightarrow> absoluteSegment x y s = s"
  by (cases s; cases "cmd s") auto

lemma toAbsolute_from_id: "\<forall>s \<in> set p. is_abs (cmd s) \<Longrightarrow> toAbsolute_from c p = p"
  by (induction p arbitrary: c) (auto simp: Let_def absoluteSegment_id)

lemma pathToAbsolute_id: "\<forall>s \<in> set p. is_abs (cmd s) \<Longrightarrow> pathToAbsolute p = p"
  by (simp add: pathToAbsolute_def toAbsolute_from_id)

lemma pathToAbsolute_idem: "pathToAbsolute (pathToAbsolute p) = pathToAbsolute p"
  by (rule pathToAbsolute_id) (simp add: pathToAbsolute_abs)

lemma absoluteSegment_letter: "letter_of (cmd (absoluteSegment x y s)) = letter_of (cmd s)"
  by (cases s; cases "cmd s") auto

lemma toAbsolute_from_letters:
  "map (\<lambda>s. letter_of (cmd s)) (toAbsolute_from c p) = map (\<lambda>s. letter_of (cmd s)) p"
  by (induction p arbitrary: c) (auto simp: Let_def absoluteSegment_letter)

lemma pathToAbsolute_letters:
  "map (\<lambda>s. letter_of (cmd s)) (pathToAbsolute p) = map (\<lambda>s. letter_of (cmd s)) p"
  by (simp add: pathToAbsolute_def toAbsolute_from_letters)

lemma normalize_from_arcs:
  "list_all2 (\<lambda>a n. cmd a = Abs CA \<longrightarrow> cmd n = Abs CA) p (normalize_from st p)"
  by (induction p arbitrary: st) (auto simp: Let_def normalizeSegment_def)

lemma normalizePath_arcs:
  "list_all2 (\<lambda>a n. cmd a = Abs CA \<longrightarrow> cmd n = Abs CA) (pathToAbsolute p)
     (normalizePath (pathToAbsolute p))"
  by (simp add: normalizePath_def pathToAbsolute_idem normalize_from_arcs)

lemma segmentToCubic_arc: "cmd n = Abs CA \<Longrightarrow> cmd (fst (segmentToCubic env n ps)) = Abs CC"
  by (simp add: segmentToCubic_def)

lemma arcs_to_cubics_segments:
  "list_all2 (\<lambda>a n. cmd a = Abs CA \<longrightarrow> cmd n = Abs CA) as ns \<Longrightarrow>
   e \<in> set (arcs_to_cubics env xy as ns) \<Longrightarrow>
   cmd (fst e) = Abs CC \<or> (fst e \<in> set as \<and> cmd (fst e) \<noteq> Abs CA)"
proof (induction env xy as ns rule: arcs_to_cubics.induct)
  case (1 env xy a as n ns)
  show ?case
  proof (cases "cmd a = Abs CA")
    case True
    let ?cs = "split_cubic (fst (segmentToCubic env n (params_at env xy)))"
    from True "1.prems"(1) have "cmd n = Abs CA" by simp
    then have c: "\<forall>s \<in> set ?cs. cmd s = Abs CC"
      using split_cubic_cmd[OF segmentToCubic_arc] by blast
    from True "1.prems"(2) have "fst e \<in> set ?cs \<or>
        e \<in> set (arcs_to_cubics env (end_point (last ?cs)) as ns)"
      by (auto simp: Let_def)
    then show ?thesis
    proof
      assume "fst e \<in> set ?cs"
      with c show ?thesis by simp
    next
      assume "e \<in> set (arcs_to_cubics env (end_point (last ?cs)) as ns)"
      from "1.IH"(1)[OF True refl _ this] "1.prems"(1) show ?thesis by auto
    qed
  next
    case False
    from False "1.prems"(2) have "e = (a, n) \<or> e \<in> set (arcs_to_cubics env (end_point n) as ns)"
      by auto
    then show ?thesis
    proof
      assume "e = (a, n)"
      with False show ?thesis by simp
    next
      assume "e \<in> set (arcs_to_cubics env (end_point n) as ns)"
      from "1.IH"(2)[OF False _ this] "1.prems"(1) show ?thesis by auto
    qed
  qed
qed simp_all

lemma arcs_to_cubics_length:
  "length as = length ns \<Longrightarrow> length as \<le> length (arcs_to_cubics env xy as ns)"
proof (induction env xy as ns rule: arcs_to_cubics.induct)
  case (1 env xy a as n ns)
  let ?cs = "split_cubic (fst (segmentToCubic env n (params_at env xy)))"
  have "?cs \<noteq> []" by (rule split_cubic_ne)
  then have "1 \<le> length ?cs" by (cases ?cs) auto
  with 1 show ?case by (auto simp: Let_def)
qed simp_all

lemma project_all_length: "length (project_all pr xy ts) = length ts"
  by (induction ts arbitrary: xy) (auto simp: split_def Let_def)

lemma applyMatrix_projected:
  assumes "\<not> isIdentity env m"
  shows "applyMatrix env (pathToAbsolute pth) (normalizePath (pathToAbsolute pth)) (Some m) og =
         Inr (projected env m og pth)"
proof -
  let ?st = "start_state env (pathToAbsolute pth) (normalizePath (pathToAbsolute pth))"
  have "len_inv ?st" by (simp add: len_inv_def start_state_def normalizePath_length)
  from loop1_result[OF this, of env 0] obtain st' where
    "loop1 env 0 ?st = Inr st'" "transformedPath st' = map entry_of (cubic_form env pth)"
    by (auto simp: start_state_def cubic_form_def)
  with assms show ?thesis by (simp add: applyMatrix_def start_state_def projected_def)
qed

lemma projected_no_arc: "s \<in> set (projected env m og pth) \<Longrightarrow> cmd s \<noteq> Abs CA"
proof -
  assume s: "s \<in> set (projected env m og pth)"
  have "\<forall>e \<in> set (cubic_form env pth). cmd (fst e) \<noteq> Abs CA"
    unfolding cubic_form_def using arcs_to_cubics_segments[OF normalizePath_arcs] by fastforce
  with project_all_cmd[OF s[unfolded projected_def]] show ?thesis
    by (auto simp: entry_of_def)
qed

lemma projected_abs: 
  assumes "s \<in> set (projected env m og pth)"
  shows "is_abs (cmd s)"
proof -
  have a: "\<forall>e \<in> set (cubic_form env pth). cmd (fst e) = Abs CC \<or> fst e \<in> set (pathToAbsolute pth)"
    unfolding cubic_form_def using arcs_to_cubics_segments[OF normalizePath_arcs] by blast
  have "\<forall>e \<in> set (cubic_form env pth). is_abs (cmd (fst e))"
  proof
    fix e assume "e \<in> set (cubic_form env pth)"
    with a have "cmd (fst e) = Abs CC \<or> fst e \<in> set (pathToAbsolute pth)" by blast
    then show "is_abs (cmd (fst e))" using pathToAbsolute_abs by auto
  qed
  with project_all_cmd[OF assms[unfolded projected_def]] show ?thesis
    by (auto simp: entry_of_def)
qed

lemma denotes_identity_iff:
  "denotes_identity env transform =
     (case matrix_of env transform of
        None \<Rightarrow> (case transform of TString str \<Rightarrow> False | _ \<Rightarrow> True)
      | Some m \<Rightarrow> isIdentity env m)"
  by (auto simp: denotes_identity_def matrix_of_def split: transform.splits option.splits)

lemma applyMatrix_identity:
  "isIdentity env m \<Longrightarrow> applyMatrix env a n (Some m) og = Inr a"
  by (simp add: applyMatrix_def)

subsection \<open>The identity\<close>

text \<open>
  Claim C1: for every path and every transform argument that denotes the identity (an
  absent transform, a descriptor without keys, or a string, matrix or descriptor whose
  matrix is the identity), \<open>transformPath\<close> returns the absolute form of the path, no
  coordinate altered.
\<close>

theorem transformPath_identity:
  "denotes_identity env transform \<Longrightarrow> transformPath env pth transform = Inr (pathToAbsolute pth)"
  by (auto simp: denotes_identity_def transformPath_def applyMatrix_def Let_def
      split: transform.splits option.splits)

theorem transformPath_identity_witness:
  "denotes_identity scale_env (TMatrix 1) \<and>
   transformPath scale_env arc_path (TMatrix 1) =
     Inr [Seg (Abs CM) [Num 0, Num 0],
          Seg (Abs CA) [Num 1, Num 1, Num 0, Num 0, Num 1, Num 5, Num 5], Seg (Abs CH) [Num 8]]"
proof -
  have h: "denotes_identity scale_env (TMatrix 1)"
    by (simp add: denotes_identity_def scale_env_def)
  have "pathToAbsolute arc_path =
     [Seg (Abs CM) [Num 0, Num 0],
      Seg (Abs CA) [Num 1, Num 1, Num 0, Num 0, Num 1, Num 5, Num 5], Seg (Abs CH) [Num 8]]"
    by (simp add: arc_path_def pathToAbsolute_def origin_cursor_def advance_def num_at_def
        seglen_def)
  with transformPath_identity [OF h, of arc_path] h show ?thesis by simp
qed

subsection \<open>The check of the matrix\<close>

text \<open>
  Claim C10: the error branch \<open>invalid matrix instance\<close> is unreachable. For every path
  and every transform argument (string, matrix, descriptor or absent) the matrix
  variable holds a matrix at the check, so \<open>transformPath\<close> never throws that error.
\<close>

theorem transformPath_matrix_valid:
  "transformPath env pth transform \<noteq> Inl InvalidMatrixInstance"
  by (auto simp: transformPath_def Let_def split: transform.splits option.splits if_splits
      dest: applyMatrix_error)

subsection \<open>Arcs and absolute form\<close>

text \<open>
  Claim C2: for every path and every transform argument whose matrix is not the
  identity, \<open>transformPath\<close> returns the projection of the cubic form of the path: the
  absolute path in which every arc has been replaced by the cubics of its conversion,
  the other segments staying. So no segment of the returned path has the command
  \<open>'A'\<close>; every segment that is projected is a cubic or a segment of the absolute path
  that is no arc; and the returned path has at least as many segments as the input.
\<close>

theorem transformPath_no_arc:
  assumes "matrix_of env transform = Some m" "\<not> isIdentity env m"
  shows "transformPath env pth transform = Inr (projected env m (origin_of transform) pth) \<and>
         (\<forall>s \<in> set (projected env m (origin_of transform) pth). cmd s \<noteq> Abs CA) \<and>
         (\<forall>e \<in> set (cubic_form env pth).
            cmd (fst e) = Abs CC \<or>
            (fst e \<in> set (pathToAbsolute pth) \<and> cmd (fst e) \<noteq> Abs CA)) \<and>
         length pth \<le> length (projected env m (origin_of transform) pth)"
proof (intro conjI)
  show "transformPath env pth transform = Inr (projected env m (origin_of transform) pth)"
    using assms by (simp add: transformPath_matrix_of applyMatrix_projected)
  show "\<forall>s \<in> set (projected env m (origin_of transform) pth). cmd s \<noteq> Abs CA"
    by (simp add: projected_no_arc)
  show "\<forall>e \<in> set (cubic_form env pth).
            cmd (fst e) = Abs CC \<or>
            (fst e \<in> set (pathToAbsolute pth) \<and> cmd (fst e) \<noteq> Abs CA)"
    unfolding cubic_form_def using arcs_to_cubics_segments[OF normalizePath_arcs] by blast
  have "length (pathToAbsolute pth) \<le> length (cubic_form env pth)"
    unfolding cubic_form_def by (rule arcs_to_cubics_length) (simp add: normalizePath_length)
  then show "length pth \<le> length (projected env m (origin_of transform) pth)"
    by (simp add: projected_def project_all_length pathToAbsolute_def toAbsolute_from_length)
qed

text \<open>
  The path \<open>M0,0 a1,1 0 0 1 5,5 h3\<close> scaled by 2: the arc becomes two cubics.
\<close>

lemma cubic_form_arc_path:
  "cubic_form scale_env arc_path =
     [(Seg (Abs CM) [Num 0, Num 0], Seg (Abs CM) [Num 0, Num 0]),
      (Seg (Abs CC) [Num 0, Num 0, Num 1, Num 1, Num 0, Num 0],
       Seg (Abs CC) [Num 0, Num 0, Num 1, Num 1, Num 0, Num 0]),
      (Seg (Abs CC) [Num 1, Num 5, Num 5, Num 1, Num 5, Num 5],
       Seg (Abs CC) [Num 1, Num 5, Num 5, Num 1, Num 5, Num 5]),
      (Seg (Abs CH) [Num 8], Seg (Abs CL) [Num 8, Num 5])]"
  by (simp add: cubic_form_def arc_path_def params_at_def split_cubic_def end_point_def eval_simps)

lemma projected_arc_path:
  "projected scale_env 2 (Num 0, Num 0, Num 0) arc_path =
     [Seg (Abs CM) [Num 0, Num 0], Seg (Abs CC) [Num 0, Num 0, Num 2, Num 2, Num 0, Num 0],
      Seg (Abs CC) [Num 2, Num 10, Num 10, Num 2, Num 10, Num 10], Seg (Abs CH) [Num 16]]"
  unfolding projected_def cubic_form_arc_path
  by (simp add: entry_of_def end_point_def num_at_def seglen_def project_seg_def scale_env_def)

theorem transformPath_no_arc_witness:
  "matrix_of scale_env (TMatrix 2) = Some 2 \<and> \<not> isIdentity scale_env 2 \<and>
   transformPath scale_env arc_path (TMatrix 2) =
     Inr [Seg (Abs CM) [Num 0, Num 0], Seg (Abs CC) [Num 0, Num 0, Num 2, Num 2, Num 0, Num 0],
          Seg (Abs CC) [Num 2, Num 10, Num 10, Num 2, Num 10, Num 10], Seg (Abs CH) [Num 16]]"
proof -
  have h1: "matrix_of scale_env (TMatrix 2) = Some 2" by (simp add: matrix_of_def)
  have h2: "\<not> isIdentity scale_env 2" by (simp add: scale_env_def)
  have og: "origin_of (TMatrix (2::real)) = (Num 0, Num 0, Num 0)" by (simp add: origin_of_def)
  from transformPath_no_arc [OF h1 h2, of arc_path] h1 h2 show ?thesis
    by (simp add: og projected_arc_path)
qed

text \<open>
  Claim C9: for every path and every transform argument, \<open>transformPath\<close> returns a
  path whose segments all carry an absolute (upper case) command. When no
  transformation is applied (an absent transform, a descriptor without keys, an identity
  matrix) the path returned is the input converted to absolute: the same commands
  segment by segment, in upper case. Otherwise it is the projection of the cubic form
  of the absolute path. The one call that returns no path is that with a transform
  string on which the matrix constructor throws.
\<close>

theorem transformPath_absolute:
  "(\<exists>r. transformPath env pth transform = Inr r \<and>
        (\<forall>s \<in> set r. is_abs (cmd s)) \<and>
        (denotes_identity env transform \<longrightarrow>
           r = pathToAbsolute pth \<and>
           map (\<lambda>s. letter_of (cmd s)) r = map (\<lambda>s. letter_of (cmd s)) pth) \<and>
        (\<forall>m. matrix_of env transform = Some m \<and> \<not> isIdentity env m \<longrightarrow>
           r = projected env m (origin_of transform) pth)) \<or>
   (\<exists>str. transform = TString str \<and> parseMatrix env str = None \<and>
      transformPath env pth transform = Inl MatrixSyntaxError)"
proof (cases "matrix_of env transform")
  case None
  show ?thesis
  proof (cases transform)
    case (TString str)
    with None show ?thesis by (simp add: transformPath_no_matrix matrix_of_def)
  next
    case (TMatrix m)
    with None show ?thesis by (simp add: matrix_of_def)
  next
    case (TObject d)
    with None have "transformPath env pth transform = Inr (pathToAbsolute pth)"
      by (simp add: transformPath_no_matrix)
    with None show ?thesis
      by (simp add: pathToAbsolute_abs pathToAbsolute_letters)
  next
    case TAbsent
    with None have "transformPath env pth transform = Inr (pathToAbsolute pth)"
      by (simp add: transformPath_no_matrix)
    with None show ?thesis
      by (simp add: pathToAbsolute_abs pathToAbsolute_letters)
  qed
next
  case (Some m)
  show ?thesis
  proof (cases "isIdentity env m")
    case True
    with Some have "transformPath env pth transform = Inr (pathToAbsolute pth)"
      by (simp add: transformPath_matrix_of applyMatrix_identity)
    with Some True show ?thesis
      by (simp add: pathToAbsolute_abs pathToAbsolute_letters)
  next
    case False
    with Some have "transformPath env pth transform =
        Inr (projected env m (origin_of transform) pth)"
      by (simp add: transformPath_matrix_of applyMatrix_projected)
    moreover have "\<not> denotes_identity env transform"
      using Some False by (simp add: denotes_identity_iff)
    ultimately show ?thesis using Some by (simp add: projected_abs)
  qed
qed

theorem transformPath_absolute_witness:
  "denotes_identity scale_env (TObject no_keys) \<and>
   transformPath scale_env arc_path (TObject no_keys) =
     Inr [Seg (Abs CM) [Num 0, Num 0],
          Seg (Abs CA) [Num 1, Num 1, Num 0, Num 0, Num 1, Num 5, Num 5], Seg (Abs CH) [Num 8]]"
proof -
  have h: "denotes_identity scale_env (TObject no_keys)"
    by (simp add: denotes_identity_def keys_count_def no_keys_def)
  have v: "pathToAbsolute arc_path =
     [Seg (Abs CM) [Num 0, Num 0],
      Seg (Abs CA) [Num 1, Num 1, Num 0, Num 0, Num 1, Num 5, Num 5], Seg (Abs CH) [Num 8]]"
    by (simp add: arc_path_def pathToAbsolute_def origin_cursor_def advance_def num_at_def
        seglen_def)
  from transformPath_absolute [of scale_env arc_path "TObject no_keys"] h
  have "transformPath scale_env arc_path (TObject no_keys) = Inr (pathToAbsolute arc_path)"
    by auto
  with h v show ?thesis by simp
qed

subsection \<open>The default origin\<close>

lemma keys_count_0: "keys_count d = 0 \<Longrightarrow> d = no_keys"
  by (cases d) (auto simp: keys_count_def no_keys_def split: if_splits)

text \<open>
  Claim C5: for every descriptor that omits the origin, \<open>transformPath\<close> returns what
  it returns for the same descriptor with the origin set to \<open>[0,0,0]\<close>. The descriptor
  without any key returns early, and the one that holds only the origin goes through
  \<open>getSVGMatrix\<close>; the two agree because a descriptor that holds only an origin
  composes to the identity, which is the assumption on the parameter \<open>getSVGMatrix\<close>.
\<close>

theorem transformPath_default_origin:
  assumes "origin d = None" "isIdentity env (getSVGMatrix env origin_only)"
  shows "transformPath env pth (TObject d) =
         transformPath env pth (TObject (d\<lparr>origin := Some (Num 0, Num 0, Num 0)\<rparr>))"
proof (cases "keys_count d = 0")
  case True
  then have d: "d = no_keys" by (rule keys_count_0)
  have "transformPath env pth (TObject d) = Inr (pathToAbsolute pth)"
    using True by (simp add: transformPath_def)
  moreover have "transformPath env pth (TObject (d\<lparr>origin := Some (Num 0, Num 0, Num 0)\<rparr>)) =
      Inr (pathToAbsolute pth)"
    using assms(2)
    by (simp add: d transformPath_def applyMatrix_def keys_count_def with_origin_def
        origin_only_def defaultOrigin_def no_keys_def)
  ultimately show ?thesis by simp
next
  case False
  then have "keys_count (d\<lparr>origin := Some (Num 0, Num 0, Num 0)\<rparr>) \<noteq> 0"
    by (simp add: keys_count_def)
  with False assms(1) show ?thesis
    by (simp add: transformPath_def with_origin_def defaultOrigin_def Let_def)
qed

theorem transformPath_default_origin_witness:
  "origin scale_two = None \<and> isIdentity scale_env (getSVGMatrix scale_env origin_only) \<and>
   transformPath scale_env arc_path (TObject scale_two) =
     transformPath scale_env arc_path (TObject (scale_two\<lparr>origin := Some (Num 0, Num 0, Num 0)\<rparr>)) \<and>
   transformPath scale_env arc_path (TObject scale_two) =
     Inr [Seg (Abs CM) [Num 0, Num 0],
      Seg (Abs CC) [Num 0, Num 0, Num 2, Num 2, Num 0, Num 0],
      Seg (Abs CC) [Num 2, Num 10, Num 10, Num 2, Num 10, Num 10],
      Seg (Abs CH) [Num 16]]"
proof -
  have h1: "origin scale_two = None" by (simp add: scale_two_def no_keys_def)
  have h2: "isIdentity scale_env (getSVGMatrix scale_env origin_only)"
    by (simp add: scale_env_def origin_only_def no_keys_def)
  have "transformPath scale_env arc_path (TObject scale_two) =
     Inr [Seg (Abs CM) [Num 0, Num 0],
      Seg (Abs CC) [Num 0, Num 0, Num 2, Num 2, Num 0, Num 0],
      Seg (Abs CC) [Num 2, Num 10, Num 10, Num 2, Num 10, Num 10],
      Seg (Abs CH) [Num 16]]"
    by (simp add: eval_simps arc_path_def scale_two_def)
  with transformPath_default_origin [OF h1 h2, of arc_path] h1 h2 show ?thesis by simp
qed

subsection \<open>Lines after the projection\<close>

text \<open>
  What the second phase does with a segment whose command is \<open>L\<close>, \<open>H\<close> or \<open>V\<close>,
  where \<open>(x, y)\<close> is the last projected point and \<open>(lx, ly)\<close> the projected end point.
\<close>

lemma project_seg_line:
  assumes "seg_c t = Abs CL \<or> seg_c t = Abs CH \<or> seg_c t = Abs CV"
    and "pr (seg_x t, seg_y t) = (lx, ly)"
  shows "project_seg pr (x, y) t =
    ((if strict_eq y ly then Seg (Abs CH) [lx]
      else if strict_eq x lx then Seg (Abs CV) [ly] else Seg (Abs CL) [lx, ly]), (lx, ly))"
  using assms by (auto simp: project_seg_def Let_def)

text \<open>
  Claim C3: an output segment produced from an \<open>L\<close>, \<open>H\<close> or \<open>V\<close> segment is \<open>H\<close>
  only when the \<open>y\<close> of its projected end point equals that of the transformed running
  point, \<open>V\<close> only when the \<open>x\<close> does, and a general line \<open>L\<close> otherwise. The code
  compares with the last projected point, which a \<open>Z\<close> does not move back to the start
  of the subpath. On \<open>M0,0 L10,0 L10,10 Z L10,20\<close> scaled by 2 the last segment runs
  from the running point \<open>(0,0)\<close> to \<open>(10,20)\<close>, projected from \<open>(0,0)\<close> to
  \<open>(20,40)\<close>, and the code returns \<open>V40\<close> for it.
\<close>

theorem transformPath_line_after_close:
  "transformPath scale_env square_path (TMatrix 2) =
     Inr [Seg (Abs CM) [Num 0, Num 0], Seg (Abs CH) [Num 20], Seg (Abs CV) [Num 20],
          Seg (Abs CZ) [], Seg (Abs CV) [Num 40]] \<and>
   pathToAbsolute square_path = square_path \<and>
   running_point square_path 4 = (Num 0, Num 0) \<and>
   running_point square_path 5 = (Num 10, Num 20) \<and>
   projection2d scale_env 2 (Num 0, Num 0) (Num 0, Num 0, Num 0) = (Num 0, Num 0) \<and>
   projection2d scale_env 2 (Num 10, Num 20) (Num 0, Num 0, Num 0) = (Num 20, Num 40)"
  by (simp add: eval_simps square_path_def running_point_def)

section \<open>The input after the call\<close>

text \<open>
  Where the call writes: the replacement of an arc (lines 85 to 94) and the projection
  in place (lines 136 to 139) write only to cells that \<open>absolutePath\<close> and
  \<open>normalizedPath\<close> refer to and to cells created after them. If every reference of
  the two arrays is to a cell from \<open>n\<close> on, the first \<open>n\<close> cells of the store are kept.
\<close>

lemma kept_refl: "kept n h h"
  by (simp add: kept_def)

lemma kept_trans: "kept n h h1 \<Longrightarrow> kept n h1 h2 \<Longrightarrow> kept n h h2"
  by (simp add: kept_def)

lemma kept_append: "n \<le> length h \<Longrightarrow> kept n h (h @ cs)"
  by (simp add: kept_def)

lemma kept_update: "n \<le> b \<Longrightarrow> kept n h (h[b := c])"
  by (simp add: kept_def)

lemma kept_length: "kept n h h' \<Longrightarrow> n \<le> length h \<Longrightarrow> n \<le> length h'"
  by (simp add: kept_def)

lemma segmentToCubic_st_kept:
  assumes "n \<le> length h"
  shows "kept n h (snd (segmentToCubic_st env h a ps))"
    and "n \<le> a \<Longrightarrow> n \<le> fst (fst (segmentToCubic_st env h a ps))"
  using assms
  by (auto simp: segmentToCubic_st_def alloc_def split_def Let_def kept_refl kept_append
      split: cell.splits)

lemma fixArc_st_kept:
  assumes "n \<le> length h" "\<forall>a \<in> set p. n \<le> a"
  shows "kept n h (snd (fixArc_st h p i))"
    and "\<forall>a \<in> set (fst (fixArc_st h p i)). n \<le> a"
proof -
  show "kept n h (snd (fixArc_st h p i))"
  proof (cases "i < length p \<and> 7 < cell_len (fetch h (p ! i))")
    case False
    then show ?thesis by (auto simp: fixArc_st_def kept_refl)
  next
    case True
    then obtain sg where sg: "fetch h (p ! i) = Cell sg" by (cases "fetch h (p ! i)") auto
    from True assms(2) have "n \<le> p ! i" by simp
    then have "kept n h (h[p ! i := Spliced])" by (rule kept_update)
    moreover have "kept n (h[p ! i := Spliced])
        (h[p ! i := Spliced] @ map Cell (map (Seg (Abs CC)) (chunks6 (args sg))))"
      using assms(1) by (intro kept_append) simp
    ultimately show ?thesis using True sg
      by (simp add: fixArc_st_def alloc_all_eq) (rule kept_trans)
  qed
  show "\<forall>a \<in> set (fst (fixArc_st h p i)). n \<le> a"
  proof (cases "i < length p \<and> 7 < cell_len (fetch h (p ! i))")
    case False
    then show ?thesis using assms(2) by (auto simp: fixArc_st_def)
  next
    case True
    then obtain sg where sg: "fetch h (p ! i) = Cell sg" by (cases "fetch h (p ! i)") auto
    show ?thesis using True sg assms
      by (auto simp: fixArc_st_def alloc_all_eq dest: in_set_takeD in_set_dropD)
  qed
qed

lemma arc_step_st_kept:
  assumes "n \<le> length h" "refs_inv n st" "i < length (normRefs st)"
  shows "kept n h (snd (arc_step_st env i h st))"
    and "refs_inv n (fst (arc_step_st env i h st))"
proof -
  let ?n = "normRefs st ! i"
  let ?s1 = "segmentToCubic_st env h ?n (prmR st)"
  let ?h1 = "snd ?s1"
  let ?s2 = "segmentToCubic_st env ?h1 ?n (snd (fst ?s1))"
  let ?h2 = "snd ?s2"
  let ?q = "(absRefs st)[i := fst (fst ?s2)]"
  let ?f3 = "fixArc_st ?h2 ?q i"
  let ?h3 = "snd ?f3"
  let ?s4 = "segmentToCubic_st env ?h3 ?n (snd (fst ?s2))"
  let ?h4 = "snd ?s4"
  let ?q' = "(normRefs st)[i := fst (fst ?s4)]"
  let ?f5 = "fixArc_st ?h4 ?q' i"
  let ?h5 = "snd ?f5"
  have res: "absRefs (fst (arc_step_st env i h st)) = fst ?f3"
    "normRefs (fst (arc_step_st env i h st)) = fst ?f5"
    "transformedRefs (fst (arc_step_st env i h st)) = transformedRefs st"
    "snd (arc_step_st env i h st) = ?h5"
    by (simp_all add: arc_step_st_def Let_def split_def)
  from assms(2,3) have nn: "n \<le> ?n" by (simp add: refs_inv_def)
  have k1: "kept n h ?h1" using assms(1) by (rule segmentToCubic_st_kept)
  then have l1: "n \<le> length ?h1" using assms(1) by (rule kept_length)
  have k2: "kept n ?h1 ?h2" using l1 by (rule segmentToCubic_st_kept)
  then have l2: "n \<le> length ?h2" using l1 by (rule kept_length)
  have r2: "n \<le> fst (fst ?s2)" using l1 nn by (rule segmentToCubic_st_kept)
  have q: "\<forall>a \<in> set ?q. n \<le> a"
    using assms(2) r2 set_update_subset_insert[of "absRefs st" i] by (auto simp: refs_inv_def)
  have k3: "kept n ?h2 ?h3" using l2 q by (rule fixArc_st_kept)
  then have l3: "n \<le> length ?h3" using l2 by (rule kept_length)
  have a3: "\<forall>a \<in> set (fst ?f3). n \<le> a" using l2 q by (rule fixArc_st_kept)
  have k4: "kept n ?h3 ?h4" using l3 by (rule segmentToCubic_st_kept)
  then have l4: "n \<le> length ?h4" using l3 by (rule kept_length)
  have r4: "n \<le> fst (fst ?s4)" using l3 nn by (rule segmentToCubic_st_kept)
  have q': "\<forall>a \<in> set ?q'. n \<le> a"
    using assms(2) r4 set_update_subset_insert[of "normRefs st" i] by (auto simp: refs_inv_def)
  have k5: "kept n ?h4 ?h5" using l4 q' by (rule fixArc_st_kept)
  have a5: "\<forall>a \<in> set (fst ?f5). n \<le> a" using l4 q' by (rule fixArc_st_kept)
  show "kept n h (snd (arc_step_st env i h st))"
    unfolding res using k1 k2 k3 k4 k5 kept_trans by blast
  show "refs_inv n (fst (arc_step_st env i h st))"
    using a3 a5 assms(2) by (simp add: refs_inv_def res)
qed

lemma fixArc_st_length: "length p \<le> length (fst (fixArc_st h p i))"
proof (cases "i < length p \<and> 7 < cell_len (fetch h (p ! i))")
  case False
  then show ?thesis by (auto simp: fixArc_st_def)
next
  case True
  then obtain sg where sg: "fetch h (p ! i) = Cell sg" by (cases "fetch h (p ! i)") auto
  with True have "args sg \<noteq> []" by (auto simp: seglen_def)
  then have "chunks6 (args sg) \<noteq> []" by (rule chunks6_ne)
  then have "0 < length (chunks6 (args sg))" by (simp del: length_0_conv)
  with True sg show ?thesis
    by (simp add: fixArc_st_def alloc_all_eq del: length_greater_0_conv)
qed

lemma arc_step_st_length: "length (absRefs st) \<le> length (absRefs (fst (arc_step_st env i h st)))"
proof -
  have "absRefs (fst (arc_step_st env i h st)) =
      fst (fixArc_st
        (snd (segmentToCubic_st env (snd (segmentToCubic_st env h (normRefs st ! i) (prmR st)))
          (normRefs st ! i) (snd (fst (segmentToCubic_st env h (normRefs st ! i) (prmR st))))))
        ((absRefs st)[i := fst (fst (segmentToCubic_st env
            (snd (segmentToCubic_st env h (normRefs st ! i) (prmR st)))
            (normRefs st ! i) (snd (fst (segmentToCubic_st env h (normRefs st ! i) (prmR st))))))])
        i)"
    by (simp add: arc_step_st_def Let_def split_def)
  then show ?thesis using fixArc_st_length[of "(absRefs st)[i := _]"] by (metis length_list_update)
qed

lemma loop_body_st_eq:
  assumes "i < length (absRefs st)" "i < length (normRefs st)"
  shows "snd (loop_body_st env i h st) = snd (after_arc env i h st)"
    and "\<exists>st'. fst (loop_body_st env i h st) = Inr st' \<and>
          absRefs st' = absRefs (fst (after_arc env i h st)) \<and>
          normRefs st' = normRefs (fst (after_arc env i h st)) \<and>
          (\<exists>t. transformedRefs st' = transformedRefs (fst (after_arc env i h st)) @ [t] \<and>
               ref_s t = absRefs (fst (after_arc env i h st)) ! i)"
  using assms by (simp_all add: loop_body_st_def after_arc_def Let_def split_def)

lemma loop_body_st_kept:
  assumes "n \<le> length h" "refs_inv n st"
  shows "kept n h (snd (loop_body_st env i h st))"
    and "fst (loop_body_st env i h st) = Inr st' \<Longrightarrow> refs_inv n st'"
proof -
  let ?r = "after_arc env i h st"
  show "kept n h (snd (loop_body_st env i h st))"
  proof (cases "length (absRefs st) \<le> i \<or> length (normRefs st) \<le> i")
    case True
    then show ?thesis by (simp add: loop_body_st_def kept_refl)
  next
    case False
    then have "snd (loop_body_st env i h st) = snd ?r" by (simp add: loop_body_st_eq)
    moreover have "kept n h (snd ?r)"
      using arc_step_st_kept(1)[OF assms, of i env] False by (simp add: after_arc_def kept_refl)
    ultimately show ?thesis by simp
  qed
  assume b: "fst (loop_body_st env i h st) = Inr st'"
  have inr: "i < length (absRefs st)" "i < length (normRefs st)"
  proof -
    have "\<not> (length (absRefs st) \<le> i \<or> length (normRefs st) \<le> i)"
    proof
      assume "length (absRefs st) \<le> i \<or> length (normRefs st) \<le> i"
      then have "fst (loop_body_st env i h st) = Inl TypeError" by (simp add: loop_body_st_def)
      with b show False by simp
    qed
    then show "i < length (absRefs st)" "i < length (normRefs st)" by simp_all
  qed
  have inv1: "refs_inv n (fst ?r)"
    using arc_step_st_kept(2)[OF assms inr(2), of env] assms(2) by (simp add: after_arc_def)
  have len: "i < length (absRefs (fst ?r))"
    using inr(1) arc_step_st_length[of st env i h] by (simp add: after_arc_def)
  from loop_body_st_eq(2)[OF inr, of env h] b obtain t where
    st': "absRefs st' = absRefs (fst ?r)" "normRefs st' = normRefs (fst ?r)"
    and t: "transformedRefs st' = transformedRefs (fst ?r) @ [t]" "ref_s t = absRefs (fst ?r) ! i"
    by auto
  from inv1 len have "n \<le> absRefs (fst ?r) ! i" by (simp add: refs_inv_def)
  with inv1 st' t show "refs_inv n st'" by (simp add: refs_inv_def)
qed

lemma loop1_st_kept:
  "n \<le> length h \<Longrightarrow> refs_inv n st \<Longrightarrow>
   kept n h (snd (loop1_st env i h st)) \<and>
   (\<forall>st'. fst (loop1_st env i h st) = Inr st' \<longrightarrow> refs_inv n st')"
proof (induction env i h st rule: loop1_st.induct)
  case (1 env i h st)
  show ?case
  proof (cases "i < iiR st")
    case False
    with "1.prems" show ?thesis by (simp add: loop1_st.simps[of env i h st] kept_refl)
  next
    case True
    let ?b = "loop_body_st env i h st"
    have k: "kept n h (snd ?b)" using "1.prems" by (rule loop_body_st_kept)
    show ?thesis
    proof (cases "fst ?b")
      case (Inl e)
      with True k show ?thesis by (simp add: loop1_st.simps[of env i h st])
    next
      case (Inr s1)
      have inv: "refs_inv n s1" using "1.prems" Inr by (rule loop_body_st_kept)
      have len: "n \<le> length (snd ?b)" using k "1.prems"(1) by (rule kept_length)
      from "1.IH"[OF True Inr len inv] k True Inr show ?thesis
        by (auto simp: loop1_st.simps[of env i h st] intro: kept_trans)
    qed
  qed
qed

lemma project_seg_st_kept:
  "n \<le> length h \<Longrightarrow> n \<le> ref_s t \<Longrightarrow> kept n h (snd (project_seg_st pr xy h t))"
  by (auto simp: project_seg_st_def Let_def split_def alloc_def kept_refl kept_append kept_update
      split: cell.splits)

lemma project_all_st_kept:
  "n \<le> length h \<Longrightarrow> \<forall>t \<in> set ts. n \<le> ref_s t \<Longrightarrow>
   kept n h (snd (project_all_st pr xy h ts))"
proof (induction ts arbitrary: h xy)
  case Nil
  then show ?case by (simp add: kept_refl)
next
  case (Cons t ts)
  let ?s = "project_seg_st pr xy h t"
  have k: "kept n h (snd ?s)" using Cons.prems by (simp add: project_seg_st_kept)
  then have "n \<le> length (snd ?s)" using Cons.prems(1) by (rule kept_length)
  then have "kept n (snd ?s) (snd (project_all_st pr (snd (fst ?s)) (snd ?s) ts))"
    using Cons.prems(2) by (intro Cons.IH) simp_all
  with k show ?case by (simp add: split_def Let_def) (rule kept_trans)
qed

lemma applyMatrix_st_kept:
  assumes "n \<le> length h" "\<forall>a \<in> set absR. n \<le> a" "\<forall>a \<in> set normR. n \<le> a"
  shows "kept n h (snd (applyMatrix_st env h absR normR mi og))"
proof (cases mi)
  case None
  then show ?thesis by (simp add: applyMatrix_st_def kept_refl)
next
  case (Some m)
  show ?thesis
  proof (cases "isIdentity env m")
    case True
    with Some show ?thesis by (simp add: applyMatrix_st_def kept_refl)
  next
    case False
    define st0 where "st0 = \<lparr>absRefs = absR, normRefs = normR, prmR = paramsParser env,
                 transformedRefs = [], iiR = length absR\<rparr>"
    obtain res h1 where l: "loop1_st env 0 h st0 = (res, h1)" by (cases "loop1_st env 0 h st0")
    have "refs_inv n st0" using assms(2,3) by (simp add: refs_inv_def st0_def)
    with assms(1) have k: "kept n h h1"
      and inv: "\<forall>st'. res = Inr st' \<longrightarrow> refs_inv n st'"
      using loop1_st_kept[of n h st0 env 0] l by simp_all
    have eq: "applyMatrix_st env h absR normR mi og =
        (case res of
           Inl e \<Rightarrow> (Inl e, h1)
         | Inr st \<Rightarrow>
             (Inr (fst (project_all_st (\<lambda>pt. projection2d env m pt og) (Num 0, Num 0) h1
                     (transformedRefs st))),
              snd (project_all_st (\<lambda>pt. projection2d env m pt og) (Num 0, Num 0) h1
                     (transformedRefs st))))"
      using Some False l unfolding applyMatrix_st_def st0_def[symmetric]
      by (simp add: split_def Let_def split: sum.splits)
    show ?thesis
    proof (cases res)
      case (Inl e)
      with k show ?thesis by (simp add: eq)
    next
      case (Inr st')
      with inv have "\<forall>t \<in> set (transformedRefs st'). n \<le> ref_s t" by (simp add: refs_inv_def)
      moreover have "n \<le> length h1" using k assms(1) by (rule kept_length)
      ultimately have "kept n h1 (snd (project_all_st (\<lambda>pt. projection2d env m pt og)
          (Num 0, Num 0) h1 (transformedRefs st')))"
        by (intro project_all_st_kept)
      with k have "kept n h (snd (project_all_st (\<lambda>pt. projection2d env m pt og)
          (Num 0, Num 0) h1 (transformedRefs st')))"
        by (rule kept_trans)
      with Inr show ?thesis by (simp add: eq)
    qed
  qed
qed

text \<open>
  Claim C4: \<open>transformPath\<close> does not mutate its input. The code does: the second phase
  writes the projected parameters into the segments of \<open>absolutePath\<close> in place (lines
  136 to 139), and for a path that is already absolute the segments of \<open>absolutePath\<close>
  are the segments of the caller. For the caller's path \<open>M1,2 L3,4\<close> and the descriptor \<open>{scale: 2}\<close> the
  call returns \<open>M2,4 L6,8\<close>, and after it the caller's array reads \<open>M2,4 L3,4\<close>: its
  first segment has been overwritten (the line is a new array, so the second segment is
  as before). The caller's descriptor has been given the key \<open>origin\<close>. By
  \<open>applyMatrix_st_kept\<close> the only cells written are those that \<open>absolutePath\<close> and
  \<open>normalizedPath\<close> refer to and those created during the call.
\<close>

theorem transformPath_mutates_input:
  "transformPath_st scale_env line_store [0, 1] (TObject scale_two) =
     (Inr [0, 2],
      [Cell (Seg (Abs CM) [Num 2, Num 4]), Cell (Seg (Abs CL) [Num 3, Num 4]),
       Cell (Seg (Abs CL) [Num 6, Num 8])],
      TObject (scale_two\<lparr>origin := Some (Num 0, Num 0, Num 0)\<rparr>)) \<and>
   read_path line_store [0, 1] =
     Some [Seg (Abs CM) [Num 1, Num 2], Seg (Abs CL) [Num 3, Num 4]] \<and>
   read_path (fst (snd (transformPath_st scale_env line_store [0, 1] (TObject scale_two))))
     [0, 1] = Some [Seg (Abs CM) [Num 2, Num 4], Seg (Abs CL) [Num 3, Num 4]] \<and>
   read_path (fst (snd (transformPath_st scale_env line_store [0, 1] (TObject scale_two))))
     [0, 2] = Some [Seg (Abs CM) [Num 2, Num 4], Seg (Abs CL) [Num 6, Num 8]]"
proof -
  have e: "transformPath_st scale_env line_store [0, 1] (TObject scale_two) =
     (Inr [0, 2],
      [Cell (Seg (Abs CM) [Num 2, Num 4]), Cell (Seg (Abs CL) [Num 3, Num 4]),
       Cell (Seg (Abs CL) [Num 6, Num 8])],
      TObject (scale_two\<lparr>origin := Some (Num 0, Num 0, Num 0)\<rparr>))"
    by (simp add: eval_st_simps eval_simps scale_two_def)
  show ?thesis
    unfolding e by (simp add: read_path_def fetch_def line_store_def)
qed

section \<open>Idempotence of the form conversions\<close>

text \<open>
  \<open>pathToAbsolute\<close> keeps an absolute path as it is (\<open>pathToAbsolute_id\<close>), so it is
  idempotent (\<open>pathToAbsolute_idem\<close>). The same holds for the two other converters and
  the paths of their form.
\<close>

subsection \<open>Normalize\<close>

lemma normal_abs: "normal s \<Longrightarrow> is_abs (cmd s)"
  by (auto simp: normal_def)

lemma normalizeSegment_normal: "normal (normalizeSegment st s)"
  by (auto simp: normalizeSegment_def normal_def split_def Let_def split: letter.splits)

lemma normalizeSegment_id: "normal s \<Longrightarrow> normalizeSegment st s = s"
  by (cases s) (auto simp: normalizeSegment_def normal_def)

lemma normalize_from_id: "\<forall>s \<in> set p. normal s \<Longrightarrow> normalize_from st p = p"
  by (induction p arbitrary: st) (auto simp: Let_def normalizeSegment_id)

lemma normalize_from_normal: "s \<in> set (normalize_from st p) \<Longrightarrow> normal s"
  by (induction p arbitrary: st) (auto simp: Let_def normalizeSegment_normal)

lemma normalizePath_normal: "s \<in> set (normalizePath p) \<Longrightarrow> normal s"
  by (simp add: normalizePath_def normalize_from_normal)

lemma normalizePath_id: "\<forall>s \<in> set p. normal s \<Longrightarrow> normalizePath p = p"
  by (simp add: normalizePath_def normalize_from_id pathToAbsolute_id normal_abs)

lemma normalizePath_idem: "normalizePath (normalizePath p) = normalizePath p"
  by (rule normalizePath_id) (simp add: normalizePath_normal)

subsection \<open>The curve converter\<close>

lemma curve_normal: "curve s \<Longrightarrow> normal s"
  by (auto simp: curve_def normal_def)

lemma cubics_of_curve: "curve s \<Longrightarrow> cubics_of env ps s = [s]"
  by (auto simp: curve_def cubics_of_def segmentToCubic_def Let_def)

lemma cubics_of_cases:
  assumes "normal s"
  shows "(curve s \<and> cubics_of env ps s = [s]) \<or>
         (\<not> curve s \<and> (\<forall>c \<in> set (cubics_of env ps s). cmd c = Abs CC))"
proof (cases "curve s")
  case True
  then show ?thesis by (simp add: cubics_of_curve)
next
  case False
  with assms have c: "cmd s = Abs CL \<or> cmd s = Abs CQ \<or> cmd s = Abs CA"
    by (auto simp: normal_def curve_def)
  then have "cmd (fst (segmentToCubic env s ps)) = Abs CC"
    by (auto simp: segmentToCubic_def)
  then have "\<forall>c \<in> set (cubics_of env ps s). cmd c = Abs CC"
    by (auto simp: cubics_of_def Let_def dest: split_cubic_cmd)
  with False show ?thesis by simp
qed

lemma cubics_of_curves: "normal s \<Longrightarrow> c \<in> set (cubics_of env ps s) \<Longrightarrow> curve c"
  using cubics_of_cases[of s env ps] by (auto simp: curve_def)

lemma curve_from_curves:
  "\<forall>s \<in> set p. normal s \<Longrightarrow> c \<in> set (curve_from env ps p) \<Longrightarrow> curve c"
  by (induction p arbitrary: ps) (auto dest: cubics_of_curves)

lemma curve_from_id: "\<forall>s \<in> set p. curve s \<Longrightarrow> curve_from env ps p = p"
  by (induction p arbitrary: ps) (auto simp: cubics_of_curve)

lemma fixPath_not_redundant: "\<not> redundant_close (fixPath p)"
proof (cases "redundant_close p")
  case False
  then show ?thesis by (simp add: fixPath_def)
next
  case True
  then have "cmd (last (butlast p)) \<noteq> Abs CZ" "2 \<le> length p"
    by (simp_all add: redundant_close_def)
  then have "\<not> redundant_close (butlast p)"
    by (auto simp: redundant_close_def)
  with True show ?thesis by (simp add: fixPath_def)
qed

lemma fixPath_set: "set (fixPath p) \<subseteq> set p"
  by (auto simp: fixPath_def dest: in_set_butlastD)

lemma pathToCurve_idem: "pathToCurve env (pathToCurve env p) = pathToCurve env p"
proof -
  let ?c = "curve_from env (paramsParser env) (normalizePath p)"
  let ?q = "fixPath ?c"
  have "\<forall>s \<in> set ?c. curve s"
    using curve_from_curves[of "normalizePath p" _ env "paramsParser env"] normalizePath_normal
    by blast
  then have qc: "\<forall>s \<in> set ?q. curve s" using fixPath_set[of ?c] by blast
  then have "\<forall>s \<in> set ?q. normal s" using curve_normal by blast
  then have a: "normalizePath ?q = ?q" by (rule normalizePath_id)
  have b: "curve_from env (paramsParser env) ?q = ?q" using qc by (rule curve_from_id)
  have c: "fixPath ?q = ?q" using fixPath_not_redundant[of ?c] by (simp add: fixPath_def)
  show ?thesis by (simp add: pathToCurve_def a b c)
qed

text \<open>
  Claim C6: \<open>toAbsolute\<close>, \<open>normalize\<close> and \<open>toCurve\<close> are each idempotent: for every
  path, applying the function to its own output gives that output again. For the curve
  converter this holds whatever the arc conversion is.
\<close>

theorem conversions_idempotent:
  "pathToAbsolute (pathToAbsolute p) = pathToAbsolute p \<and>
   normalizePath (normalizePath p) = normalizePath p \<and>
   pathToCurve env (pathToCurve env p) = pathToCurve env p"
  by (simp add: pathToAbsolute_idem normalizePath_idem pathToCurve_idem)

text \<open>
  The path \<open>M0,0 h3 a1,1 0 0 1 0,3 t-3,-3 z\<close>: its curve form is four segments, the
  close segment dropped, and each of the three conversions gives its own output again.
\<close>

theorem conversions_idempotent_witness:
  "pathToAbsolute (pathToAbsolute mixed_path) = pathToAbsolute mixed_path \<and>
   normalizePath (normalizePath mixed_path) = normalizePath mixed_path \<and>
   pathToCurve chord_env (pathToCurve chord_env mixed_path) = pathToCurve chord_env mixed_path \<and>
   pathToCurve chord_env mixed_path =
     [Seg (Abs CM) [Num 0, Num 0],
      Seg (Abs CC) [Num 1, Num 0, Num 2, Num 0, Num 3, Num 0],
      Seg (Abs CC) [Num 3, Num 1, Num 3, Num 2, Num 3, Num 3],
      Seg (Abs CC) [Num 3, Num 3, Num 2, Num 2, Num 0, Num 0]]"
proof -
  have "pathToCurve chord_env mixed_path =
     [Seg (Abs CM) [Num 0, Num 0],
      Seg (Abs CC) [Num 1, Num 0, Num 2, Num 0, Num 3, Num 0],
      Seg (Abs CC) [Num 3, Num 1, Num 3, Num 2, Num 3, Num 3],
      Seg (Abs CC) [Num 3, Num 3, Num 2, Num 2, Num 0, Num 0]]"
    by (simp add: pathToCurve_def fixPath_def redundant_close_def subpath_start_def is_move_def
        end_point_def cubics_of_def params_next_def split_cubic_def lineToCubic_def
        quadToCubic_def towards_def reflect_def chord_env_def mixed_path_def eval_simps)
  with conversions_idempotent [of mixed_path chord_env]
  show ?thesis by simp
qed

section \<open>The arity of scanned segments\<close>

lemma finalizeSegment_arity: "sg \<in> set (finalizeSegment c ds) \<Longrightarrow> arity_ok sg"
proof (induction c ds rule: finalizeSegment.induct)
  case (1 c ds)
  let ?n = "paramsCount (letter_of c)"
  show ?case
  proof (cases "length ds < ?n")
    case True
    with "1.prems" show ?thesis by (simp add: finalizeSegment.simps[of c ds])
  next
    case ge: False
    show ?thesis
    proof (cases "?n = 0")
      case True
      with "1.prems" ge show ?thesis by (simp add: finalizeSegment.simps[of c ds] arity_ok_def)
    next
      case False
      with "1.prems" ge have "sg = Seg c (take ?n ds) \<or>
          sg \<in> set (finalizeSegment (repeated c) (drop ?n ds))"
        by (simp add: finalizeSegment.simps[of c ds] Let_def)
      then show ?thesis
      proof
        assume "sg = Seg c (take ?n ds)"
        with ge show ?thesis by (simp add: arity_ok_def)
      next
        assume "sg \<in> set (finalizeSegment (repeated c) (drop ?n ds))"
        from "1.IH"[OF refl ge False this] show ?thesis .
      qed
    qed
  qed
qed

lemma scanSegment_arity:
  "scanSegment mx s = Inr (segs, r) \<Longrightarrow> sg \<in> set segs \<Longrightarrow> arity_ok sg"
  by (auto simp: scanSegment_def finalizeSegment_arity
      split: list.splits option.splits if_splits sum.splits)

lemma scanAll_arity:
  "scanAll mx s acc = Inr p \<Longrightarrow> \<forall>sg \<in> set acc. arity_ok sg \<Longrightarrow> \<forall>sg \<in> set p. arity_ok sg"
proof (induction mx s acc rule: scanAll.induct)
  case (1 mx s acc)
  show ?case
  proof (cases "s = []")
    case True
    have "scanAll mx s acc = Inr acc" using True by (subst scanAll.simps) simp
    with "1.prems" show ?thesis by simp
  next
    case False
    with "1.prems"(1) obtain segs r where
      sc: "scanSegment mx s = Inr (segs, r)" and rest: "scanAll mx r (acc @ segs) = Inr p"
      by (cases "scanSegment mx s") (auto simp: scanAll.simps[of mx s acc])
    have "\<forall>sg \<in> set (acc @ segs). arity_ok sg"
      using "1.prems"(2) scanSegment_arity[OF sc] by auto
    from "1.IH"[OF False sc refl rest this] show ?thesis .
  qed
qed

text \<open>
  The sample text holds a repeated \<open>m\<close>, two arc flags with no separator before the
  next number, a number with a sign, no integer part and an exponent, and a \<open>Z\<close>.
\<close>

lemma sample_parse:
  "parsePathString sample_text =
     Inr [Seg (Rel CM) [Num 1, Num 2], Seg (Rel CL) [Num 3, Num 4],
          Seg (Rel CA) [Num 1, Num 1, Num 0, Num 0, Num 1, Num 5, Num (-5)], Seg (Abs CZ) []]"
  by (simp add: sample_text_def scan_simps)

text \<open>The four kinds of failure, each with its position.\<close>

lemma sample_fail:
  "parsePathString ''M1 2 3'' = Inl (ParseError 6 ShortParameterList)"
  "parsePathString ''a1 1 0 2 1 5 5'' = Inl (ParseError 7 InvalidFlag)"
  "parsePathString ''M1 2 x'' = Inl (ParseError 5 BadCommandLetter)"
  "parsePathString ''M1 e'' = Inl (ParseError 3 MalformedNumeral)"
  by (simp_all add: scan_simps)


text \<open>
  Claim C7: for every text on which parsing succeeds, every segment of the resulting
  path has as many parameters as the arity of its command (\<open>A\<close> 7, \<open>C\<close> 6, \<open>S\<close> and \<open>Q\<close>
  4, \<open>L\<close>, \<open>M\<close> and \<open>T\<close> 2, \<open>H\<close> and \<open>V\<close> 1, \<open>Z\<close> 0).
\<close>

theorem parsePathString_arity:
  assumes "parsePathString s = Inr p"
  shows "\<forall>sg \<in> set p. length (args sg) = paramsCount (letter_of (cmd sg))"
proof -
  from assms have "\<forall>sg \<in> set p. arity_ok sg"
    unfolding parsePathString_def by (rule scanAll_arity) simp
  then show ?thesis by (simp add: arity_ok_def)
qed

theorem parsePathString_arity_witness:
  "parsePathString sample_text =
     Inr [Seg (Rel CM) [Num 1, Num 2], Seg (Rel CL) [Num 3, Num 4],
          Seg (Rel CA) [Num 1, Num 1, Num 0, Num 0, Num 1, Num 5, Num (-5)], Seg (Abs CZ) []] \<and>
   list_all (\<lambda>sg. length (args sg) = paramsCount (letter_of (cmd sg)))
     [Seg (Rel CM) [Num 1, Num 2], Seg (Rel CL) [Num 3, Num 4],
      Seg (Rel CA) [Num 1, Num 1, Num 0, Num 0, Num 1, Num 5, Num (-5)], Seg (Abs CZ) []]"
  using parsePathString_arity [OF sample_parse] sample_parse by (simp add: list_all_iff)

end
